theory Spec2Isabelle
  imports Main "HOL-Library.AList"
begin

section \<open>Characters and strings\<close>

text \<open>
  Python strings are sequences of code points. A \<^typ>\<open>string\<close> here is a list of
  \<^typ>\<open>char\<close>, read as the code points below 256; the character classes of the
  \<^verbatim>\<open>re\<close> module are given on that range. \<^verbatim>\<open>\d\<close> is a decimal digit (below 256
  only \<^verbatim>\<open>0-9\<close>), \<^verbatim>\<open>\s\<close> is what \<^verbatim>\<open>str.isspace\<close> accepts, \<^verbatim>\<open>\w\<close> is what
  \<^verbatim>\<open>str.isalnum\<close> accepts, or an underscore.
\<close>

definition is_digit :: "char \<Rightarrow> bool" where
  "is_digit c \<longleftrightarrow> c \<in> set ''0123456789''"

text \<open>The class \<^verbatim>\<open>[A-Za-z0-9_-]\<close> of \<^verbatim>\<open>derive_tarball_url\<close>.\<close>

definition is_suffix_char :: "char \<Rightarrow> bool" where
  "is_suffix_char c \<longleftrightarrow>
     c \<in> set ''ABCDEFGHIJKLMNOPQRSTUVWXYZabcdefghijklmnopqrstuvwxyz0123456789_-''"

text \<open>The class \<^verbatim>\<open>[0-9a-fA-F]\<close> of \<^verbatim>\<open>update_portfile_sha512\<close>.\<close>

definition is_hex :: "char \<Rightarrow> bool" where
  "is_hex c \<longleftrightarrow> c \<in> set ''0123456789abcdefABCDEF''"

definition is_space :: "char \<Rightarrow> bool" where
  "is_space c \<longleftrightarrow> (of_char c :: nat) \<in> set [9, 10, 11, 12, 13, 28, 29, 30, 31, 32, 133, 160]"

definition is_word :: "char \<Rightarrow> bool" where
  "is_word c \<longleftrightarrow>
     (let n = (of_char c :: nat) in
      (48 \<le> n \<and> n \<le> 57) \<or> (65 \<le> n \<and> n \<le> 90) \<or> n = 95 \<or> (97 \<le> n \<and> n \<le> 122) \<or>
      n \<in> set [170, 178, 179, 181, 185, 186, 188, 189, 190] \<or>
      (192 \<le> n \<and> n \<le> 214) \<or> (216 \<le> n \<and> n \<le> 246) \<or> 248 \<le> n)"

text \<open>The class \<^verbatim>\<open>[\w\-/]\<close> of the \<^verbatim>\<open>REPO\<close> line search in \<^verbatim>\<open>bump-vcpkg.py\<close>.\<close>

definition is_repo_char :: "char \<Rightarrow> bool" where
  "is_repo_char c \<longleftrightarrow> is_word c \<or> c = CHR ''-'' \<or> c = CHR ''/''"

section \<open>Regular expressions with backtracking\<close>

text \<open>
  The fragment of \<^verbatim>\<open>re\<close> syntax the two scripts use. Repetition is applied to
  character classes only, and is greedy.
\<close>

datatype rx =
    Eps
  | Chr char
  | Cls "char \<Rightarrow> bool"
  | Seq rx rx
  | Alt rx rx
  | Opt rx
  | Star "char \<Rightarrow> bool"
  | Plus "char \<Rightarrow> bool"
  | Rep nat "char \<Rightarrow> bool"
  | Grp rx
  | Look rx

text \<open>
  The inputs left after a greedy \<^verbatim>\<open>[class]*\<close>, in the order a backtracking matcher
  tries them: the longest run first, then one character less at a time.
\<close>

fun star_rests :: "(char \<Rightarrow> bool) \<Rightarrow> string \<Rightarrow> string list" where
  "star_rests p [] = [[]]"
| "star_rests p (x # xs) = (if p x then star_rests p xs @ [x # xs] else [x # xs])"

text \<open>
  \<open>ms r s\<close> lists every way \<open>r\<close> matches a prefix of \<open>s\<close>, in the order a
  backtracking matcher finds them: each entry is the texts of the capturing groups (in
  the order the groups open) and the input left after the match. The match Python
  reports at a position is the first entry. An alternative, an option and a lookahead
  hold no group in the patterns below.
\<close>

fun ms :: "rx \<Rightarrow> string \<Rightarrow> (string list \<times> string) list" where
  "ms Eps s = [([], s)]"
| "ms (Chr c) s = (case s of [] \<Rightarrow> [] | x # xs \<Rightarrow> if x = c then [([], xs)] else [])"
| "ms (Cls p) s = (case s of [] \<Rightarrow> [] | x # xs \<Rightarrow> if p x then [([], xs)] else [])"
| "ms (Seq a b) s =
     concat (map (\<lambda>(g1, s1). map (\<lambda>(g2, s2). (g1 @ g2, s2)) (ms b s1)) (ms a s))"
| "ms (Alt a b) s = ms a s @ ms b s"
| "ms (Opt a) s = ms a s @ [([], s)]"
| "ms (Star p) s = map (Pair []) (star_rests p s)"
| "ms (Plus p) s =
     (case s of [] \<Rightarrow> [] | x # xs \<Rightarrow> if p x then map (Pair []) (star_rests p xs) else [])"
| "ms (Rep n p) s =
     (if n \<le> length s \<and> list_all p (take n s) then [([], drop n s)] else [])"
| "ms (Grp a) s = map (\<lambda>(g, s1). (take (length s - length s1) s # g, s1)) (ms a s)"
| "ms (Look a) s = (case ms a s of [] \<Rightarrow> [] | _ # _ \<Rightarrow> [([], s)])"

text \<open>A literal string as a pattern.\<close>

fun lit :: "string \<Rightarrow> rx" where
  "lit [] = Eps"
| "lit (c # cs) = Seq (Chr c) (lit cs)"

text \<open>
  \<^verbatim>\<open>re.search\<close>: the first position, from the left, at which the pattern matches.
  The result is the text before the match (\<^verbatim>\<open>s[:m.start()]\<close>), the groups, and the
  text after it (\<^verbatim>\<open>s[m.end():]\<close>); \<open>pre\<close> is the text already passed over.
\<close>

fun search_from :: "rx \<Rightarrow> string \<Rightarrow> string \<Rightarrow> (string \<times> string list \<times> string) option" where
  "search_from r pre [] =
     (case ms r [] of [] \<Rightarrow> None | (g, rest) # _ \<Rightarrow> Some (pre, g, rest))"
| "search_from r pre (x # xs) =
     (case ms r (x # xs) of
        [] \<Rightarrow> search_from r (pre @ [x]) xs
      | (g, rest) # _ \<Rightarrow> Some (pre, g, rest))"

definition re_search :: "rx \<Rightarrow> string \<Rightarrow> (string \<times> string list \<times> string) option" where
  "re_search r s = search_from r [] s"

section \<open>Documents, commands and messages\<close>

text \<open>
  A YAML document as \<^verbatim>\<open>ruamel.yaml\<close> loads it. A mapping keeps the order of its
  entries; its keys are nodes themselves, so a key written \<^verbatim>\<open>"1.0"\<close> (a string) and a
  key written \<^verbatim>\<open>1\<close> (an integer) are different keys. A string scalar is a \<open>YStr\<close>
  whatever its quoting. Floating-point scalars are left out. Comments and layout, which
  the round-trip loader carries along, are not part of the model.
\<close>

datatype yaml =
    YNull
  | YBool bool
  | YInt int
  | YStr string
  | YSeq "yaml list"
  | YMap "(yaml \<times> yaml) list"

text \<open>A JSON document as \<^verbatim>\<open>json.load\<close> returns it (numbers: integers only).\<close>

datatype json =
    JNull
  | JBool bool
  | JNum int
  | JStr string
  | JArr "json list"
  | JObj "(string \<times> json) list"

text \<open>
  What a file holds: the document its loader reads from it, or its text. The loaders
  and dumpers themselves are library code, so a file written by \<^verbatim>\<open>yaml_rt.dump\<close> or
  \<^verbatim>\<open>json.dump\<close> is the document that was dumped.
\<close>

datatype filedata = YamlFile yaml | JsonFile json | TextFile string

text \<open>A command for \<^verbatim>\<open>subprocess.run\<close>: an argument vector, or a shell line.\<close>

datatype cmd = Argv "string list" | Shell string

text \<open>One constructor for each \<^verbatim>\<open>print\<close> and each \<^verbatim>\<open>sys.exit\<close> message of the scripts.\<close>

datatype msg =
    MExec cmd
  | MSkipEntry string string
  | MAddedEntry string string
  | MWarnConfigNotFound string
  | MSkipConfig string
  | MWarnConfigEmpty
  | MAddedConfig string yaml
  | MTarballUrl string
  | MNothingToCommit
  | MWarnNoGh string
  | MErrNoConandata string
  | MErrNoRepo
  | MDownloading string
  | MEditVersion json string string
  | MEditSha string

text \<open>The tag a message is printed with, in square brackets.\<close>

datatype tag = TExec | TSkip | TInfo | TWarn | TEdit | TError

fun tag_of :: "msg \<Rightarrow> tag" where
  "tag_of (MExec c) = TExec"
| "tag_of (MSkipEntry p v) = TSkip"
| "tag_of (MAddedEntry p v) = TInfo"
| "tag_of (MWarnConfigNotFound p) = TWarn"
| "tag_of (MSkipConfig v) = TSkip"
| "tag_of MWarnConfigEmpty = TWarn"
| "tag_of (MAddedConfig v k) = TInfo"
| "tag_of (MTarballUrl u) = TInfo"
| "tag_of MNothingToCommit = TInfo"
| "tag_of (MWarnNoGh b) = TWarn"
| "tag_of (MErrNoConandata p) = TError"
| "tag_of MErrNoRepo = TError"
| "tag_of (MDownloading u) = TInfo"
| "tag_of (MEditVersion old new p) = TEdit"
| "tag_of (MEditSha p) = TEdit"

section \<open>Errors\<close>

text \<open>
  Every exception the modelled code can raise, and \<^verbatim>\<open>sys.exit\<close> with a message.
  \<open>NoSourcesBlock\<close> is the \<^verbatim>\<open>RuntimeError\<close> "Cannot infer repo URL"; and
  \<open>UnrecognisablePattern url\<close> is the \<^verbatim>\<open>RuntimeError\<close> "Unrecognisable version
  pattern in URL", which the specification calls \<^verbatim>\<open>PatternNotFound\<close>.
  \<open>CalledProcessError\<close> carries the exit status of the command that failed.
  \<open>TemplateNotModelled\<close> stands for a replacement template with an escape sequence
  other than a one-digit group reference: what \<^verbatim>\<open>re\<close> does with it is not
  modelled.
\<close>

datatype error =
    NoSourcesBlock
  | UnrecognisablePattern string
  | AttributeError
  | TypeError
  | KeyError yaml
  | FileNotFoundError string
  | ParseError string
  | URLError string
  | CalledProcessError nat
  | IndexError
  | StopIteration
  | SystemExit msg
  | TemplateNotModelled

section \<open>The world the scripts act on\<close>

text \<open>
  The effects of a run, in the order they happen: a command handed to
  \<^verbatim>\<open>subprocess.run\<close>, a download, a file written, a file removed, a line printed.
  Reading a file and asking whether it exists leave no event.
\<close>

datatype event =
    Exec cmd
  | Fetch string
  | Write string filedata
  | Remove string
  | Print msg

record world =
  files :: "string \<rightharpoonup> filedata"
  trace :: "event list"

text \<open>
  What the scripts do not decide themselves: the exit status of an external command and
  the working tree it leaves, the body a URL returns (or no body, for any failure of
  \<^verbatim>\<open>urlopen\<close>), the two digests of \<^verbatim>\<open>hashlib\<close>, whether \<^verbatim>\<open>gh\<close> is on the path, and
  the name \<^verbatim>\<open>tempfile\<close> picks.
\<close>

record env =
  run_result :: "cmd \<Rightarrow> world \<Rightarrow> nat \<times> (string \<rightharpoonup> filedata)"
  http_get :: "string \<Rightarrow> world \<Rightarrow> string option"
  sha256_hex :: "string \<Rightarrow> string"
  sha512_hex :: "string \<Rightarrow> string"
  gh_found :: bool
  tmp_name :: string

text \<open>
  A step of a script: it returns a result or raises, and leaves a world. An exception
  is never caught in the scripts, so the first one ends the run.
\<close>

type_synonym 'a act = "world \<Rightarrow> (error + 'a) \<times> world"

definition ret :: "'a \<Rightarrow> 'a act" where
  "ret a w = (Inr a, w)"

definition raise :: "error \<Rightarrow> 'a act" where
  "raise e w = (Inl e, w)"

definition lift :: "error + 'a \<Rightarrow> 'a act" where
  "lift r w = (r, w)"

definition andthen :: "'a act \<Rightarrow> ('a \<Rightarrow> 'b act) \<Rightarrow> 'b act" where
  "andthen m f w = (case m w of (Inl e, w1) \<Rightarrow> (Inl e, w1) | (Inr a, w1) \<Rightarrow> f a w1)"

definition seq :: "'a act \<Rightarrow> 'b act \<Rightarrow> 'b act" where
  "seq m n = andthen m (\<lambda>_. n)"

definition emit :: "event \<Rightarrow> world \<Rightarrow> world" where
  "emit e w = w\<lparr>trace := trace w @ [e]\<rparr>"

definition say :: "msg \<Rightarrow> unit act" where
  "say m w = (Inr (), emit (Print m) w)"

definition path_exists :: "string \<Rightarrow> world \<Rightarrow> bool" where
  "path_exists path w \<longleftrightarrow> files w path \<noteq> None"

text \<open>
  \<^verbatim>\<open>run\<close> of both scripts: the command is printed, then executed with
  \<^verbatim>\<open>check=True\<close>, so a non-zero exit status raises \<^verbatim>\<open>CalledProcessError\<close>.
\<close>

definition run :: "env \<Rightarrow> cmd \<Rightarrow> unit act" where
  "run E c w =
     (let w1 = emit (Exec c) (emit (Print (MExec c)) w);
          (code, fs) = run_result E c w;
          w2 = w1\<lparr>files := fs\<rparr>
      in if code = 0 then (Inr (), w2) else (Inl (CalledProcessError code), w2))"

fun run_all :: "env \<Rightarrow> cmd list \<Rightarrow> unit act" where
  "run_all E [] = ret ()"
| "run_all E (c # cs) = seq (run E c) (run_all E cs)"

text \<open>\<^verbatim>\<open>pathlib\<close>'s \<^verbatim>\<open>/\<close>, for plain relative names.\<close>

definition path_join :: "string \<Rightarrow> string \<Rightarrow> string" where
  "path_join a b = a @ ''/'' @ b"

section \<open>Python's operations on loaded documents\<close>

text \<open>\<^verbatim>\<open>bool(x)\<close>\<close>

fun truthy :: "yaml \<Rightarrow> bool" where
  "truthy YNull = False"
| "truthy (YBool b) = b"
| "truthy (YInt i) = (i \<noteq> 0)"
| "truthy (YStr s) = (s \<noteq> [])"
| "truthy (YSeq xs) = (xs \<noteq> [])"
| "truthy (YMap m) = (m \<noteq> [])"

text \<open>\<^verbatim>\<open>x.get(k, d)\<close> with a string key; only a mapping has \<^verbatim>\<open>get\<close>.\<close>

fun get_default :: "yaml \<Rightarrow> string \<Rightarrow> yaml \<Rightarrow> error + yaml" where
  "get_default (YMap m) k d = Inr (case map_of m (YStr k) of Some v \<Rightarrow> v | None \<Rightarrow> d)"
| "get_default _ k d = Inl AttributeError"

text \<open>
  \<^verbatim>\<open>d.setdefault(k, dflt)\<close> on the entries of a mapping: the entries afterwards
  (a missing key is added at the end) and the value returned.
\<close>

definition setdefault :: "(yaml \<times> yaml) list \<Rightarrow> string \<Rightarrow> yaml \<Rightarrow> (yaml \<times> yaml) list \<times> yaml" where
  "setdefault d k dflt =
     (case map_of d (YStr k) of
        Some v \<Rightarrow> (d, v)
      | None \<Rightarrow> (d @ [(YStr k, dflt)], dflt))"

fun starts_with :: "string \<Rightarrow> string \<Rightarrow> bool" where
  "starts_with [] s = True"
| "starts_with (p # ps) [] = False"
| "starts_with (p # ps) (x # xs) = (p = x \<and> starts_with ps xs)"

fun is_infix :: "string \<Rightarrow> string \<Rightarrow> bool" where
  "is_infix p [] = (p = [])"
| "is_infix p (x # xs) = (starts_with p (x # xs) \<or> is_infix p xs)"

text \<open>
  \<^verbatim>\<open>v in x\<close> for a string \<open>v\<close>: a key of a mapping that is the string \<open>v\<close>, an
  element of a list that is the string \<open>v\<close>, a substring of a string; a \<^verbatim>\<open>TypeError\<close>
  on anything else.
\<close>

fun contains :: "yaml \<Rightarrow> string \<Rightarrow> error + bool" where
  "contains (YMap m) v = Inr (YStr v \<in> set (map fst m))"
| "contains (YSeq xs) v = Inr (YStr v \<in> set xs)"
| "contains (YStr s) v = Inr (is_infix v s)"
| "contains _ v = Inl TypeError"

text \<open>\<^verbatim>\<open>next(iter(x))\<close>\<close>

fun first_of :: "yaml \<Rightarrow> error + yaml" where
  "first_of (YMap []) = Inl StopIteration"
| "first_of (YMap ((k, v) # m)) = Inr k"
| "first_of (YSeq []) = Inl StopIteration"
| "first_of (YSeq (x # xs)) = Inr x"
| "first_of (YStr []) = Inl StopIteration"
| "first_of (YStr (c # cs)) = Inr (YStr [c])"
| "first_of _ = Inl TypeError"

text \<open>\<^verbatim>\<open>next(iter(x.values()))\<close>; only a mapping has \<^verbatim>\<open>values\<close>.\<close>

fun first_value :: "yaml \<Rightarrow> error + yaml" where
  "first_value (YMap []) = Inl StopIteration"
| "first_value (YMap ((k, v) # m)) = Inr v"
| "first_value _ = Inl AttributeError"

text \<open>A list indexed by a Python integer: a negative index counts from the end.\<close>

definition py_index :: "'a list \<Rightarrow> int \<Rightarrow> error + 'a" where
  "py_index xs i =
     (if 0 \<le> i \<and> i < int (length xs) then Inr (xs ! nat i)
      else if i < 0 \<and> - int (length xs) \<le> i then Inr (xs ! nat (int (length xs) + i))
      else Inl IndexError)"

text \<open>\<^verbatim>\<open>x[k]\<close>; a \<^verbatim>\<open>bool\<close> is an integer to Python.\<close>

fun getitem :: "yaml \<Rightarrow> yaml \<Rightarrow> error + yaml" where
  "getitem (YMap m) k = (case map_of m k of Some v \<Rightarrow> Inr v | None \<Rightarrow> Inl (KeyError k))"
| "getitem (YSeq xs) (YInt i) = py_index xs i"
| "getitem (YSeq xs) (YBool b) = py_index xs (if b then 1 else 0)"
| "getitem (YStr s) (YInt i) = map_sum id (\<lambda>c. YStr [c]) (py_index s i)"
| "getitem (YStr s) (YBool b) = map_sum id (\<lambda>c. YStr [c]) (py_index s (if b then 1 else 0))"
| "getitem _ _ = Inl TypeError"

section \<open>Reading and writing files\<close>

text \<open>
  A file is read only by the reader of its kind; \<open>ParseError\<close> is what a reader raises
  on a file of another kind.
\<close>

definition load_yaml :: "string \<Rightarrow> yaml act" where
  "load_yaml path w =
     (case files w path of
        None \<Rightarrow> (Inl (FileNotFoundError path), w)
      | Some (YamlFile y) \<Rightarrow> (Inr y, w)
      | Some _ \<Rightarrow> (Inl (ParseError path), w))"

definition load_json :: "string \<Rightarrow> json act" where
  "load_json path w =
     (case files w path of
        None \<Rightarrow> (Inl (FileNotFoundError path), w)
      | Some (JsonFile j) \<Rightarrow> (Inr j, w)
      | Some _ \<Rightarrow> (Inl (ParseError path), w))"

definition read_text :: "string \<Rightarrow> string act" where
  "read_text path w =
     (case files w path of
        None \<Rightarrow> (Inl (FileNotFoundError path), w)
      | Some (TextFile t) \<Rightarrow> (Inr t, w)
      | Some _ \<Rightarrow> (Inl (ParseError path), w))"

definition write_file :: "string \<Rightarrow> filedata \<Rightarrow> unit act" where
  "write_file path d w = (Inr (), emit (Write path d) (w\<lparr>files := (files w)(path \<mapsto> d)\<rparr>))"

definition remove_file :: "string \<Rightarrow> unit act" where
  "remove_file path w = (Inr (), emit (Remove path) (w\<lparr>files := (files w)(path := None)\<rparr>))"

definition save_yaml :: "string \<Rightarrow> yaml \<Rightarrow> unit act" where
  "save_yaml path data = write_file path (YamlFile data)"

text \<open>\<^verbatim>\<open>compute_sha256\<close> and \<^verbatim>\<open>fetch_tarball_sha512\<close>: one download, hashed whole.\<close>

definition compute_sha256 :: "env \<Rightarrow> string \<Rightarrow> string act" where
  "compute_sha256 E url w =
     (case http_get E url w of
        None \<Rightarrow> (Inl (URLError url), emit (Fetch url) w)
      | Some body \<Rightarrow> (Inr (sha256_hex E body), emit (Fetch url) w))"

definition fetch_tarball_sha512 :: "env \<Rightarrow> string \<Rightarrow> string act" where
  "fetch_tarball_sha512 E url =
     seq (say (MDownloading url))
       (\<lambda>w. case http_get E url w of
               None \<Rightarrow> (Inl (URLError url), emit (Fetch url) w)
             | Some body \<Rightarrow> (Inr (sha512_hex E body), emit (Fetch url) w))"

section \<open>The URL deriver (\<^verbatim>\<open>bump-conan.py\<close>)\<close>

text \<open>\<^verbatim>\<open>\d+\.\d+\.\d+(?:[A-Za-z0-9_-]*)?\<close>, the body of the second group.\<close>

definition version_core :: rx where
  "version_core =
     Seq (Plus is_digit) (Seq (Chr CHR ''.'')
       (Seq (Plus is_digit) (Seq (Chr CHR ''.'')
         (Seq (Plus is_digit) (Opt (Star is_suffix_char))))))"

text \<open>\<^verbatim>\<open>(?=\.(?:tar\.gz|zip))\<close>\<close>

definition archive_ahead :: rx where
  "archive_ahead = Look (Seq (Chr CHR ''.'') (Alt (lit ''tar.gz'') (lit ''zip'')))"

text \<open>\<^verbatim>\<open>(v?)(\d+\.\d+\.\d+(?:[A-Za-z0-9_-]*)?)(?=\.(?:tar\.gz|zip))\<close>\<close>

definition anchored_pattern :: rx where
  "anchored_pattern = Seq (Grp (Opt (Chr CHR ''v''))) (Seq (Grp version_core) archive_ahead)"

text \<open>\<^verbatim>\<open>(v?)(\d+\.\d+\.\d+(?:[A-Za-z0-9_-]*)?)\<close>, the fallback.\<close>

definition fallback_pattern :: rx where
  "fallback_pattern = Seq (Grp (Opt (Chr CHR ''v''))) (Grp version_core)"

text \<open>
  Lines 115 to 126 of \<^verbatim>\<open>derive_tarball_url\<close>: from the sample URL to the new one.
  \<^verbatim>\<open>m.group(1)\<close> is the first entry of the group list.
\<close>

definition derive_url :: "string \<Rightarrow> string \<Rightarrow> error + string" where
  "derive_url sample_url new_version =
     (let m = (case re_search anchored_pattern sample_url of
                 Some r \<Rightarrow> Some r
               | None \<Rightarrow> re_search fallback_pattern sample_url)
      in case m of
           None \<Rightarrow> Inl (UnrecognisablePattern sample_url)
         | Some (prefix, groups, suffix) \<Rightarrow>
             (let leading_v = (case groups of g1 # _ \<Rightarrow> if g1 \<noteq> [] then ''v'' else []
                               | [] \<Rightarrow> [])
              in Inr (prefix @ leading_v @ new_version @ suffix)))"

text \<open>
  \<^verbatim>\<open>derive_tarball_url\<close>: the sample URL is the \<^verbatim>\<open>url\<close> of the first entry of
  \<^verbatim>\<open>sources\<close>; \<^verbatim>\<open>pattern.search\<close> raises a \<^verbatim>\<open>TypeError\<close> unless it is a string.
\<close>

definition derive_tarball_url :: "yaml \<Rightarrow> string \<Rightarrow> error + string" where
  "derive_tarball_url data new_version =
     (case get_default data ''sources'' YNull of
        Inl e \<Rightarrow> Inl e
      | Inr got \<Rightarrow>
          (let sources = (if truthy got then got else YMap []) in
           if \<not> truthy sources then Inl NoSourcesBlock
           else (case first_value sources of
                   Inl e \<Rightarrow> Inl e
                 | Inr entry \<Rightarrow>
                     (case getitem entry (YStr ''url'') of
                        Inl e \<Rightarrow> Inl e
                      | Inr (YStr sample_url) \<Rightarrow> derive_url sample_url new_version
                      | Inr _ \<Rightarrow> Inl TypeError))))"

section \<open>Substitution (\<^verbatim>\<open>re.sub\<close> in \<^verbatim>\<open>bump-vcpkg.py\<close>)\<close>

text \<open>
  A replacement template is read once, before any match is looked for: a backslash and
  one digit from 1 to 9 is a reference to a group of the pattern (the pattern has
  \<open>n\<close> groups), any other character stands for itself.
\<close>

datatype piece = PLit char | PGroup nat

definition digit_val :: "char \<Rightarrow> nat" where
  "digit_val c = of_char c - 48"

fun parse_template :: "nat \<Rightarrow> string \<Rightarrow> error + piece list" where
  "parse_template n [] = Inr []"
| "parse_template n (c # cs) =
     (if c = CHR 0x5C then
        (case cs of
           [] \<Rightarrow> Inl TemplateNotModelled
         | d # ds \<Rightarrow>
             if is_digit d \<and> d \<noteq> CHR ''0'' \<and> digit_val d \<le> n
                \<and> (case ds of [] \<Rightarrow> True | e # _ \<Rightarrow> \<not> is_digit e)
             then (case parse_template n ds of
                     Inl e \<Rightarrow> Inl e
                   | Inr ps \<Rightarrow> Inr (PGroup (digit_val d) # ps))
             else Inl TemplateNotModelled)
      else (case parse_template n cs of
              Inl e \<Rightarrow> Inl e
            | Inr ps \<Rightarrow> Inr (PLit c # ps)))"

text \<open>The text a parsed template stands for at one match: group \<open>k\<close> is entry \<open>k - 1\<close>.\<close>

fun expand :: "piece list \<Rightarrow> string list \<Rightarrow> string" where
  "expand [] g = []"
| "expand (PLit c # ps) g = c # expand ps g"
| "expand (PGroup k # ps) g = (if k - 1 < length g then g ! (k - 1) else []) @ expand ps g"

text \<open>
  The matches are replaced from left to right, each search starting where the last
  match ended. A match of the empty string is passed over as if there were none: the
  pattern this is used with consumes at least 135 characters, and what \<^verbatim>\<open>re.sub\<close>
  does at an empty match is not modelled.
\<close>

fun sub_from :: "rx \<Rightarrow> piece list \<Rightarrow> string \<Rightarrow> string" where
  "sub_from r ps [] = []"
| "sub_from r ps (x # xs) =
     (case ms r (x # xs) of
        [] \<Rightarrow> x # sub_from r ps xs
      | (g, rest) # _ \<Rightarrow>
          if length rest < length (x # xs) then expand ps g @ sub_from r ps rest
          else x # sub_from r ps xs)"

text \<open>The number of capturing groups of a pattern.\<close>

fun groups_of :: "rx \<Rightarrow> nat" where
  "groups_of (Seq a b) = groups_of a + groups_of b"
| "groups_of (Alt a b) = groups_of a + groups_of b"
| "groups_of (Opt a) = groups_of a"
| "groups_of (Grp a) = Suc (groups_of a)"
| "groups_of (Look a) = groups_of a"
| "groups_of _ = 0"

definition re_sub :: "rx \<Rightarrow> string \<Rightarrow> string \<Rightarrow> error + string" where
  "re_sub r template s =
     (case parse_template (groups_of r) template of
        Inl e \<Rightarrow> Inl e
      | Inr ps \<Rightarrow> Inr (sub_from r ps s))"

text \<open>\<^verbatim>\<open>(SHA512)\s+[0-9a-fA-F]{128}\<close>\<close>

definition sha512_pattern :: rx where
  "sha512_pattern = Seq (Grp (lit ''SHA512'')) (Seq (Plus is_space) (Rep 128 is_hex))"

text \<open>
  The text \<^verbatim>\<open>update_portfile_sha512\<close> writes back: the template is the f-string
  \<^verbatim>\<open>fr'\1 {new_sha}'\<close>.
\<close>

definition new_portfile :: "string \<Rightarrow> string \<Rightarrow> error + string" where
  "new_portfile content' new_sha = re_sub sha512_pattern ([CHR 0x5C, CHR ''1'', CHR '' ''] @ new_sha) content'"

section \<open>The metadata editor (\<^verbatim>\<open>bump-conan.py\<close>)\<close>

text \<open>
  \<^verbatim>\<open>update_conandata\<close>. \<^verbatim>\<open>sources\<close> is the object held by \<^verbatim>\<open>data\<close>, so the
  insertion changes \<^verbatim>\<open>data\<close> in place; \<^verbatim>\<open>CommentedMap.insert(0, k, v)\<close> puts the
  entry in front of the others. A string has no \<^verbatim>\<open>insert\<close>, and the \<^verbatim>\<open>insert\<close> of a
  list takes two arguments.
\<close>

definition update_conandata :: "string \<Rightarrow> string \<Rightarrow> string \<Rightarrow> string \<Rightarrow> bool act" where
  "update_conandata path version url sha256 =
     andthen (load_yaml path) (\<lambda>data.
       case data of
         YMap d \<Rightarrow>
           (let (d1, sources) = setdefault d ''sources'' (YMap []) in
            andthen (lift (contains sources version)) (\<lambda>present.
              if present then seq (say (MSkipEntry path version)) (ret False)
              else (case sources of
                      YMap srcs \<Rightarrow>
                        (let entry = YMap [(YStr ''url'', YStr url), (YStr ''sha256'', YStr sha256)];
                             data1 = YMap (AList.update (YStr ''sources'')
                                       (YMap ((YStr version, entry) # srcs)) d1)
                         in seq (save_yaml path data1)
                              (seq (say (MAddedEntry path version)) (ret True)))
                    | YSeq xs \<Rightarrow> raise TypeError
                    | _ \<Rightarrow> raise AttributeError)))
       | _ \<Rightarrow> raise AttributeError)"

text \<open>
  \<^verbatim>\<open>update_config\<close>. \<^verbatim>\<open>copy.deepcopy\<close> returns a value equal to its argument; in a
  model without object identity the copy is the value itself.
\<close>

definition update_config :: "string \<Rightarrow> string \<Rightarrow> bool act" where
  "update_config path version w =
     (if \<not> path_exists path w then seq (say (MWarnConfigNotFound path)) (ret False) w
      else andthen (load_yaml path) (\<lambda>data.
        case data of
          YMap d \<Rightarrow>
            (let (d1, versions) = setdefault d ''versions'' (YMap []) in
             andthen (lift (contains versions version)) (\<lambda>present.
               if present then seq (say (MSkipConfig version)) (ret False)
               else if \<not> truthy versions then seq (say MWarnConfigEmpty) (ret False)
               else
                 andthen (lift (first_of versions)) (\<lambda>most_recent_key.
                 andthen (lift (getitem versions most_recent_key)) (\<lambda>most_recent_val.
                   case versions of
                     YMap vs \<Rightarrow>
                       (let data1 = YMap (AList.update (YStr ''versions'')
                                      (YMap ((YStr version, most_recent_val) # vs)) d1)
                        in seq (save_yaml path data1)
                             (seq (say (MAddedConfig version most_recent_key)) (ret True)))
                   | YSeq xs \<Rightarrow> raise TypeError
                   | _ \<Rightarrow> raise AttributeError))))
        | _ \<Rightarrow> raise AttributeError) w)"

section \<open>The release workflow of \<^verbatim>\<open>bump-conan.py\<close>\<close>

record conan_args =
  arg_recipe :: string
  arg_version :: string
  arg_repo_url :: "string option"
  arg_prefix :: string
  arg_branch :: "string option"
  arg_no_build :: bool
  arg_no_pr :: bool
  arg_push_remote :: string
  arg_rebase_remote :: string

text \<open>\<^verbatim>\<open>detect_folder\<close>, the local function of \<^verbatim>\<open>main\<close>.\<close>

definition detect_folder :: "string \<Rightarrow> yaml act" where
  "detect_folder recipe_dir w =
     (let cfg = path_join recipe_dir ''config.yml'' in
      if \<not> path_exists cfg w then ret (YStr ''all'') w
      else andthen (load_yaml cfg) (\<lambda>cfg_data.
           andthen (lift (get_default cfg_data ''versions'' YNull)) (\<lambda>got.
             let versions = (if truthy got then got else YMap []) in
             if \<not> truthy versions then ret (YStr ''all'')
             else andthen (lift (first_of versions)) (\<lambda>first_key.
                  andthen (lift (getitem versions first_key)) (\<lambda>v.
                    lift (get_default v ''folder'' (YStr ''all'')))))) w)"

text \<open>\<^verbatim>\<open>recipe_dir / folder\<close> raises a \<^verbatim>\<open>TypeError\<close> unless \<^verbatim>\<open>folder\<close> is a string.\<close>

fun as_name :: "yaml \<Rightarrow> error + string" where
  "as_name (YStr s) = Inr s"
| "as_name _ = Inl TypeError"

text \<open>\<^verbatim>\<open>s.rstrip('/')\<close>\<close>

definition rstrip_slash :: "string \<Rightarrow> string" where
  "rstrip_slash s = rev (dropWhile (\<lambda>c. c = CHR ''/'') (rev s))"

text \<open>\<^verbatim>\<open>args.branch or f"{args.prefix}/{name}-{version}"\<close>\<close>

definition branch_name :: "string option \<Rightarrow> string \<Rightarrow> string \<Rightarrow> string \<Rightarrow> string" where
  "branch_name explicit pre name ver =
     (case explicit of
        Some b \<Rightarrow> if b \<noteq> [] then b else pre @ ''/'' @ name @ ''-'' @ ver
      | None \<Rightarrow> pre @ ''/'' @ name @ ''-'' @ ver)"

definition unlines :: "string list \<Rightarrow> string" where
  "unlines ls = concat (map (\<lambda>l. l @ [CHR 0x0A]) ls)"

text \<open>\<^verbatim>\<open>PR_TEMPLATE.format(recipe=..., version=...)\<close>\<close>

definition conan_pr_body :: "string \<Rightarrow> string \<Rightarrow> string" where
  "conan_pr_body recipe ver = unlines
     [''### Summary'',
      ''Changes to recipe:  **'' @ recipe @ ''/'' @ ver @ ''**'',
      [],
      ''I'' @ [CHR 0x27] @ ''m the author, new release'',
      [],
      ''---'',
      ''- [x] Read the [contributing guidelines](https://github.com/conan-io/conan-center-index/blob/master/CONTRIBUTING.md)'',
      ''- [x] Checked that this PR is not a duplicate: [list of PRs by recipe](https://github.com/conan-io/conan-center-index/discussions/24240)'',
      ''- [x] Tested locally with at least one configuration using a recent version of Conan'']"

text \<open>
  \<^verbatim>\<open>main\<close>. The stages after the argument parser, in the order of the source.
\<close>

definition conan_git_sync :: "conan_args \<Rightarrow> string \<Rightarrow> cmd list" where
  "conan_git_sync a branch =
     [Argv [''git'', ''checkout'', ''master''],
      Argv [''git'', ''fetch'', arg_rebase_remote a],
      Argv [''git'', ''rebase'', arg_rebase_remote a @ ''/master''],
      Argv [''git'', ''push''],
      Argv [''git'', ''checkout'', ''-b'', branch]]"

definition conan_build_cmd :: "string \<Rightarrow> string \<Rightarrow> cmd" where
  "conan_build_cmd conan_subdir ver =
     Shell (''conan create '' @ conan_subdir @ ''/conanfile.py --version '' @ ver @ '' --build=missing'')"

definition conan_commit_push :: "conan_args \<Rightarrow> string \<Rightarrow> string \<Rightarrow> string \<Rightarrow> cmd list" where
  "conan_commit_push a conandata configyml branch =
     [Argv [''git'', ''add'', conandata, configyml],
      Argv [''git'', ''commit'', ''-m'', arg_recipe a @ '': Bump to '' @ arg_version a],
      Argv [''git'', ''push'', ''-u'', arg_push_remote a, branch]]"

definition conan_pr :: "env \<Rightarrow> conan_args \<Rightarrow> string \<Rightarrow> unit act" where
  "conan_pr E a branch =
     (if arg_no_pr a then ret ()
      else if gh_found E then
        seq (write_file (tmp_name E) (TextFile (conan_pr_body (arg_recipe a) (arg_version a))))
          (seq (run E (Argv [''gh'', ''pr'', ''create'', ''--fill'', ''--body-file'', tmp_name E]))
            (remove_file (tmp_name E)))
      else say (MWarnNoGh branch))"

definition conan_tarball_url :: "conan_args \<Rightarrow> string \<Rightarrow> string act" where
  "conan_tarball_url a conandata =
     (case arg_repo_url a of
        Some u \<Rightarrow>
          if u \<noteq> [] then
            ret (rstrip_slash u @ ''/archive/refs/tags/v'' @ arg_version a @ ''.tar.gz'')
          else andthen (load_yaml conandata) (\<lambda>data.
                 lift (derive_tarball_url data (arg_version a)))
      | None \<Rightarrow> andthen (load_yaml conandata) (\<lambda>data.
                 lift (derive_tarball_url data (arg_version a))))"

definition conan_finish :: "env \<Rightarrow> conan_args \<Rightarrow> string \<Rightarrow> string \<Rightarrow> string \<Rightarrow> string \<Rightarrow> unit act" where
  "conan_finish E a recipe_dir conan_subdir conandata branch =
     (let configyml = path_join recipe_dir ''config.yml'' in
      seq (update_config configyml (arg_version a))
     (seq (if \<not> arg_no_build a then run E (conan_build_cmd conan_subdir (arg_version a))
           else ret ())
     (seq (run_all E (conan_commit_push a conandata configyml branch))
          (conan_pr E a branch))))"

text \<open>
  \<^verbatim>\<open>main\<close> up to the edit: the folder, the URL, the download and its digest, the
  branch name, and the five \<^verbatim>\<open>git\<close> commands. It returns what the later stages use:
  \<^verbatim>\<open>conan_subdir\<close>, \<^verbatim>\<open>conandata\<close>, \<^verbatim>\<open>tarball_url\<close>, \<^verbatim>\<open>sha256\<close> and \<^verbatim>\<open>branch\<close>.
\<close>

definition conan_prepare :: "env \<Rightarrow> conan_args \<Rightarrow> (string \<times> string \<times> string \<times> string \<times> string) act" where
  "conan_prepare E a =
     (let recipe_dir = path_join ''recipes'' (arg_recipe a) in
      andthen (detect_folder recipe_dir) (\<lambda>folder_node.
      andthen (lift (as_name folder_node)) (\<lambda>folder.
        (let conan_subdir = path_join recipe_dir folder;
             conandata = path_join conan_subdir ''conandata.yml''
         in
         seq (\<lambda>w. if path_exists conandata w then ret () w
                  else raise (SystemExit (MErrNoConandata conandata)) w)
        (andthen (conan_tarball_url a conandata) (\<lambda>tarball_url.
         seq (say (MTarballUrl tarball_url))
        (andthen (compute_sha256 E tarball_url) (\<lambda>sha256.
          (let branch = branch_name (arg_branch a) (arg_prefix a) (arg_recipe a) (arg_version a)
           in
           seq (run_all E (conan_git_sync a branch))
               (ret (conan_subdir, conandata, tarball_url, sha256, branch)))))))))))"

text \<open>\<^verbatim>\<open>main\<close>: the preparation, the edit, and what follows an edit that added the entry.\<close>

definition conan_main :: "env \<Rightarrow> conan_args \<Rightarrow> unit act" where
  "conan_main E a =
     andthen (conan_prepare E a) (\<lambda>(conan_subdir, conandata, tarball_url, sha256, branch).
     andthen (update_conandata conandata (arg_version a) tarball_url sha256) (\<lambda>added.
       if \<not> added then say MNothingToCommit
       else conan_finish E a (path_join ''recipes'' (arg_recipe a)) conan_subdir conandata branch))"

text \<open>
  The exit status of the process: 0 when \<^verbatim>\<open>main\<close> returns, 1 when an exception
  escapes it or \<^verbatim>\<open>sys.exit\<close> is called with a message.
\<close>

fun exit_status :: "error + unit \<Rightarrow> nat" where
  "exit_status (Inr u) = 0"
| "exit_status (Inl e) = 1"

section \<open>The editors and the workflow of \<^verbatim>\<open>bump-vcpkg.py\<close>\<close>

text \<open>
  \<^verbatim>\<open>update_vcpkg_json\<close>. \<^verbatim>\<open>data["version"] = new_version\<close> replaces the value of
  an existing key where it stands and adds a missing key at the end, which is what
  \<^const>\<open>AList.update\<close> does. Only a JSON object has \<^verbatim>\<open>get\<close>.
\<close>

definition update_vcpkg_json :: "string \<Rightarrow> string \<Rightarrow> unit act" where
  "update_vcpkg_json path new_version =
     andthen (load_json path) (\<lambda>data.
       case data of
         JObj d \<Rightarrow>
           (let old_version = (case map_of d ''version'' of Some v \<Rightarrow> v | None \<Rightarrow> JStr []);
                data1 = JObj (AList.update ''version'' (JStr new_version) d)
            in seq (write_file path (JsonFile data1))
                   (say (MEditVersion old_version new_version path)))
       | _ \<Rightarrow> raise AttributeError)"

text \<open>\<^verbatim>\<open>update_portfile_sha512\<close>\<close>

definition update_portfile_sha512 :: "string \<Rightarrow> string \<Rightarrow> unit act" where
  "update_portfile_sha512 path new_sha =
     andthen (read_text path) (\<lambda>content'.
     andthen (lift (new_portfile content' new_sha)) (\<lambda>updated.
       seq (write_file path (TextFile updated)) (say (MEditSha path))))"

record vcpkg_args =
  varg_name :: string
  varg_version :: string
  varg_prefix :: string
  varg_branch :: "string option"
  varg_push_remote :: string
  varg_rebase_remote :: string

text \<open>\<^verbatim>\<open>REPO\s+([\w\-/]+)\<close>\<close>

definition repo_pattern :: rx where
  "repo_pattern = Seq (lit ''REPO'') (Seq (Plus is_space) (Grp (Plus is_repo_char)))"

definition vcpkg_pr_body :: string where
  "vcpkg_pr_body = unlines
     [''- [x] Changes comply with the [maintainer guide](https://github.com/microsoft/vcpkg-docs/blob/main/vcpkg/contributing/maintainer-guide.md).'',
      ''- [x] SHA512s are updated for each updated download.'',
      ''- [x] The '' @ [CHR 0x22] @ ''supports'' @ [CHR 0x22] @ '' clause reflects platforms that may be fixed by this new version.'',
      ''- [x] Any fixed [CI baseline](https://github.com/microsoft/vcpkg/blob/master/scripts/ci.baseline.txt) entries are removed from that file.'',
      ''- [x] Any patches that are no longer applied are deleted from the port'' @ [CHR 0x27] @ ''s directory.'',
      ''- [x] The version database is fixed by rerunning `./vcpkg x-add-version --all` and committing the result.'',
      ''- [x] Only one version is added to each modified port'' @ [CHR 0x27] @ ''s versions file.'']"

definition vcpkg_git_sync :: "vcpkg_args \<Rightarrow> string \<Rightarrow> cmd list" where
  "vcpkg_git_sync a branch =
     [Argv [''git'', ''checkout'', ''master''],
      Argv [''git'', ''fetch'', varg_rebase_remote a],
      Argv [''git'', ''rebase'', varg_rebase_remote a @ ''/master''],
      Argv [''git'', ''push''],
      Argv [''git'', ''checkout'', ''-b'', branch]]"

text \<open>
  The commands after the two edits, in the order of the source: the commit of the
  port update, the rebuild, the version database and its commit, the push.
\<close>

definition vcpkg_commit_build_push :: "vcpkg_args \<Rightarrow> string \<Rightarrow> cmd list" where
  "vcpkg_commit_build_push a branch =
     [Argv [''git'', ''commit'', ''-am'', ''['' @ varg_name a @ ''] Bump to '' @ varg_version a],
      Shell ''rm -rf installed packages downloads'',
      Argv [''./vcpkg'', ''install'', varg_name a],
      Argv [''./vcpkg'', ''x-add-version'', varg_name a, ''--overwrite-version''],
      Argv [''git'', ''commit'', ''-am'', ''x-add''],
      Argv [''git'', ''push'', ''-u'', varg_push_remote a, branch]]"

definition vcpkg_pr :: "env \<Rightarrow> vcpkg_args \<Rightarrow> string \<Rightarrow> unit act" where
  "vcpkg_pr E a branch =
     (if gh_found E then
        seq (write_file (tmp_name E) (TextFile vcpkg_pr_body))
          (seq (run E (Argv [''gh'', ''pr'', ''create'', ''--fill'', ''--body-file'', tmp_name E,
                            ''--title'', ''['' @ varg_name a @ ''] Bump to '' @ varg_version a]))
            (remove_file (tmp_name E)))
      else say (MWarnNoGh branch))"

text \<open>
  \<^verbatim>\<open>main\<close> up to the edits: the five \<^verbatim>\<open>git\<close> commands, the \<^verbatim>\<open>REPO\<close> line of the
  portfile, the download and its digest.
\<close>

definition vcpkg_prepare :: "env \<Rightarrow> vcpkg_args \<Rightarrow> string \<Rightarrow> string \<Rightarrow> string act" where
  "vcpkg_prepare E a branch portfile =
     seq (run_all E (vcpkg_git_sync a branch))
    (andthen (read_text portfile) (\<lambda>ptext.
       case re_search repo_pattern ptext of
         None \<Rightarrow> raise (SystemExit MErrNoRepo)
       | Some (before, groups, after) \<Rightarrow>
           (let repo = (case groups of g1 # _ \<Rightarrow> g1 | [] \<Rightarrow> []);
                url = ''https://github.com/'' @ repo @ ''/archive/refs/tags/v''
                        @ varg_version a @ ''.tar.gz''
            in fetch_tarball_sha512 E url)))"

definition vcpkg_main :: "env \<Rightarrow> vcpkg_args \<Rightarrow> unit act" where
  "vcpkg_main E a =
     (let branch = branch_name (varg_branch a) (varg_prefix a) (varg_name a) (varg_version a);
          vcpkg_dir = path_join ''ports'' (varg_name a);
          portfile = path_join vcpkg_dir ''portfile.cmake'';
          vcpkg_json = path_join vcpkg_dir ''vcpkg.json''
      in
      andthen (vcpkg_prepare E a branch portfile) (\<lambda>sha512.
      seq (update_vcpkg_json vcpkg_json (varg_version a))
     (seq (update_portfile_sha512 portfile sha512)
     (seq (run_all E (vcpkg_commit_build_push a branch))
          (vcpkg_pr E a branch)))))"

text \<open>What the theorems below say about a world and about a list of events.\<close>

text \<open>
  The entries of the \<^verbatim>\<open>sources\<close> mapping of the YAML document at a path; a document
  without the key has none, as after \<^verbatim>\<open>setdefault\<close>. \<open>None\<close> when the file is no
  mapping or \<^verbatim>\<open>sources\<close> is no mapping.
\<close>

definition entries_at :: "string \<Rightarrow> world \<Rightarrow> string \<Rightarrow> (yaml \<times> yaml) list option" where
  "entries_at key w path =
     (case files w path of
        Some (YamlFile (YMap d)) \<Rightarrow>
          (case map_of d (YStr key) of
             None \<Rightarrow> Some []
           | Some (YMap m) \<Rightarrow> Some m
           | Some _ \<Rightarrow> None)
      | _ \<Rightarrow> None)"

text \<open>A \<^verbatim>\<open>git commit\<close>, with any arguments.\<close>

fun is_commit :: "cmd \<Rightarrow> bool" where
  "is_commit (Argv (a # b # rest)) = (a = ''git'' \<and> b = ''commit'')"
| "is_commit _ = False"

text \<open>The commands executed, in order, among a list of events.\<close>

fun executed :: "event list \<Rightarrow> cmd list" where
  "executed [] = []"
| "executed (Exec c # es) = c # executed es"
| "executed (e # es) = executed es"

section \<open>Reading a pattern: first matches, and the shapes the deriver looks for\<close>

text \<open>
  \<^verbatim>\<open>re\<close> reports the first match in priority order. \<open>first_match\<close> is that match at
  the start of a string; \<open>mK\<close> runs a pattern against a continuation, the way a
  backtracking matcher does: the first alternative the continuation accepts wins.
\<close>

fun first_some :: "('a \<Rightarrow> 'b option) \<Rightarrow> 'a list \<Rightarrow> 'b option" where
  "first_some K [] = None"
| "first_some K (x # xs) = (case K x of Some y \<Rightarrow> Some y | None \<Rightarrow> first_some K xs)"

definition first_match :: "rx \<Rightarrow> string \<Rightarrow> (string list \<times> string) option" where
  "first_match r s = (case ms r s of [] \<Rightarrow> None | m # _ \<Rightarrow> Some m)"

definition mK :: "rx \<Rightarrow> string \<Rightarrow> (string list \<times> string \<Rightarrow> 'b option) \<Rightarrow> 'b option" where
  "mK r s K = first_some K (ms r s)"

text \<open>
  What the version pattern does at the start of a string, written as a scan: a run of
  digits and a dot, twice, then a digit and the longest run of suffix characters.
  \<open>core_end\<close> is what is left after the scan.
\<close>

definition digits_dot :: "string \<Rightarrow> string option" where
  "digits_dot s =
     (case s of
        [] \<Rightarrow> None
      | x # xs \<Rightarrow>
          if is_digit x then
            (case dropWhile is_digit xs of
               [] \<Rightarrow> None
             | c # t \<Rightarrow> if c = CHR ''.'' then Some t else None)
          else None)"

definition core_end :: "string \<Rightarrow> string option" where
  "core_end s =
     (case digits_dot s of
        None \<Rightarrow> None
      | Some s1 \<Rightarrow>
          (case digits_dot s1 of
             None \<Rightarrow> None
           | Some s2 \<Rightarrow>
               (case s2 of
                  [] \<Rightarrow> None
                | x # xs \<Rightarrow> if is_digit x then Some (dropWhile is_suffix_char xs) else None)))"

definition strip_v :: "string \<Rightarrow> string \<times> string" where
  "strip_v s = (case s of [] \<Rightarrow> ([], []) | c # t \<Rightarrow> if c = CHR ''v'' then (''v'', t) else ([], s))"

text \<open>The text starts with one of the two archive extensions of the lookahead.\<close>

definition has_ext :: "string \<Rightarrow> bool" where
  "has_ext r \<longleftrightarrow> starts_with ''.tar.gz'' r \<or> starts_with ''.zip'' r"

text \<open>
  The continuations for which the greedy suffix run never has to give a character back:
  those that accept whatever is left, and those that refuse a text starting with a
  suffix character.
\<close>

definition okK :: "(string list \<times> string \<Rightarrow> 'b option) \<Rightarrow> bool" where
  "okK K \<longleftrightarrow> (\<forall>r. K ([], r) \<noteq> None) \<or> (\<forall>x xs. is_suffix_char x \<longrightarrow> K ([], x # xs) = None)"

text \<open>
  The shape the two patterns accept, said without a pattern: \<open>version3\<close> is three
  runs of digits separated by dots, followed by suffix characters. A text \<open>stops\<close>
  when the suffix run cannot go on into it.
\<close>

definition digits :: "string \<Rightarrow> bool" where
  "digits a \<longleftrightarrow> a \<noteq> [] \<and> list_all is_digit a"

definition version3 :: "string \<Rightarrow> bool" where
  "version3 ver \<longleftrightarrow>
     (\<exists>a b c t. ver = a @ ''.'' @ b @ ''.'' @ c @ t \<and> digits a \<and> digits b \<and> digits c \<and>
        list_all is_suffix_char t)"

definition stops :: "string \<Rightarrow> bool" where
  "stops r \<longleftrightarrow> (case r of [] \<Rightarrow> True | x # xs \<Rightarrow> \<not> is_suffix_char x)"

text \<open>
  \<open>shaped_at anchored t v ver suf\<close>: the text \<open>t\<close> starts with an optional \<open>v\<close> and a
  version \<open>ver\<close>, and what follows is an archive extension (anchored) or does not
  continue the suffix run (not anchored). \<open>leftmost\<close>: the URL has this shape after
  \<open>pre\<close>, and at no earlier position.
\<close>

definition shaped_at :: "bool \<Rightarrow> string \<Rightarrow> string \<Rightarrow> string \<Rightarrow> string \<Rightarrow> bool" where
  "shaped_at anchored t v ver suf \<longleftrightarrow>
     t = v @ ver @ suf \<and> (v = [] \<or> v = ''v'') \<and> version3 ver \<and>
     (if anchored then has_ext suf else stops suf)"

definition leftmost :: "bool \<Rightarrow> string \<Rightarrow> string \<Rightarrow> string \<Rightarrow> string \<Rightarrow> string \<Rightarrow> bool" where
  "leftmost anchored url pre v ver suf \<longleftrightarrow>
     url = pre @ v @ ver @ suf \<and> shaped_at anchored (v @ ver @ suf) v ver suf \<and>
     (\<forall>n < length pre. \<not> (\<exists>v' ver' suf'. shaped_at anchored (drop n url) v' ver' suf'))"

text \<open>
  The shape as the specification words it: one or more runs of digits separated by dots,
  after an optional \<open>v\<close>, before an optional suffix of alphanumerics, hyphens and
  underscores.
\<close>

fun dotted :: "string list \<Rightarrow> string" where
  "dotted [] = []"
| "dotted [g] = g"
| "dotted (g # h # gs) = g @ ''.'' @ dotted (h # gs)"

definition spec_version_shaped :: "string \<Rightarrow> bool" where
  "spec_version_shaped m \<longleftrightarrow>
     (\<exists>v gs t. m = v @ dotted gs @ t \<and> (v = [] \<or> v = ''v'') \<and> gs \<noteq> [] \<and>
        list_all digits gs \<and> list_all is_suffix_char t)"

text \<open>
  The digest line of a portfile. \<open>digest_end\<close> is what the pattern of
  \<^verbatim>\<open>update_portfile_sha512\<close> does at the start of a string, as a scan: the keyword, the
  longest run of whitespace (at least one), 128 hexadecimal digits; the result is the
  text after them. Said without a scan: \<open>digest_at t ws h rest\<close>, and
  \<open>leftmost_digest\<close> for the first place in a file where this holds.
\<close>

definition digest_end :: "string \<Rightarrow> string option" where
  "digest_end s =
     (if starts_with ''SHA512'' s then
        (case drop 6 s of
           [] \<Rightarrow> None
         | x # xs \<Rightarrow>
             if is_space x then
               (let r = dropWhile is_space xs in
                if 128 \<le> length r \<and> list_all is_hex (take 128 r) then Some (drop 128 r)
                else None)
             else None)
      else None)"

definition spaces :: "string \<Rightarrow> bool" where
  "spaces ws \<longleftrightarrow> ws \<noteq> [] \<and> list_all is_space ws"

definition hex128 :: "string \<Rightarrow> bool" where
  "hex128 h \<longleftrightarrow> length h = 128 \<and> list_all is_hex h"

definition digest_at :: "string \<Rightarrow> string \<Rightarrow> string \<Rightarrow> string \<Rightarrow> bool" where
  "digest_at t ws h rest \<longleftrightarrow> t = ''SHA512'' @ ws @ h @ rest \<and> spaces ws \<and> hex128 h"

definition leftmost_digest :: "string \<Rightarrow> string \<Rightarrow> string \<Rightarrow> string \<Rightarrow> string \<Rightarrow> bool" where
  "leftmost_digest content' pre ws h rest \<longleftrightarrow>
     content' = pre @ ''SHA512'' @ ws @ h @ rest \<and> spaces ws \<and> hex128 h \<and>
     (\<forall>n < length pre. \<not> (\<exists>ws' h' rest'. digest_at (drop n content') ws' h' rest'))"

text \<open>A port whose portfile is one digest line.\<close>

definition example_digest_world :: world where
  "example_digest_world =
     \<lparr>files = [''ports/p/portfile.cmake'' \<mapsto> TextFile (''SHA512 '' @ replicate 128 CHR ''a'')],
      trace = []\<rparr>"

text \<open>
  The anchored pattern at the start of a string once more, one character at a time:
  \<open>scan st s\<close> says whether the pattern, having come as far as \<open>st\<close>, matches with
  \<open>s\<close> still to read. The states are the places of the pattern: before it, after the
  \<open>v\<close>, in a group of digits, after a dot, and from the third group on in the suffix
  run, which ends at the lookahead.
\<close>

datatype place = Start | AfterV | Group1 | Dot1 | Group2 | Dot2 | Group3

fun scan :: "place \<Rightarrow> string \<Rightarrow> bool" where
  "scan st [] = False"
| "scan Start (x # xs) =
     (if x = CHR ''v'' then scan AfterV xs else if is_digit x then scan Group1 xs else False)"
| "scan AfterV (x # xs) = (if is_digit x then scan Group1 xs else False)"
| "scan Group1 (x # xs) =
     (if is_digit x then scan Group1 xs else if x = CHR ''.'' then scan Dot1 xs else False)"
| "scan Dot1 (x # xs) = (if is_digit x then scan Group2 xs else False)"
| "scan Group2 (x # xs) =
     (if is_digit x then scan Group2 xs else if x = CHR ''.'' then scan Dot2 xs else False)"
| "scan Dot2 (x # xs) = (if is_digit x then scan Group3 xs else False)"
| "scan Group3 (x # xs) = (if is_suffix_char x then scan Group3 xs else has_ext (x # xs))"

section \<open>Example inputs\<close>

text \<open>The end-to-end document of the specification: one entry, \<^verbatim>\<open>1.0.0\<close>.\<close>

definition example_sources :: "(yaml \<times> yaml) list" where
  "example_sources =
     [(YStr ''1.0.0'', YMap [(YStr ''url'', YStr ''https://x/archive/v1.0.0.tar.gz''),
                            (YStr ''sha256'', YStr ''00'')])]"

definition example_world :: world where
  "example_world =
     \<lparr>files = [''recipes/p/all/conandata.yml'' \<mapsto> YamlFile (YMap [(YStr ''sources'', YMap example_sources)])],
      trace = []\<rparr>"

text \<open>A companion index with one version, one with none, and a port.\<close>

definition example_versions :: "(yaml \<times> yaml) list" where
  "example_versions = [(YStr ''1.0.0'', YMap [(YStr ''folder'', YStr ''all'')])]"

definition example_config_world :: world where
  "example_config_world =
     \<lparr>files = [''recipes/p/config.yml'' \<mapsto> YamlFile (YMap [(YStr ''versions'', YMap example_versions)])],
      trace = []\<rparr>"

definition example_empty_config_world :: world where
  "example_empty_config_world =
     \<lparr>files = [''recipes/p/config.yml'' \<mapsto> YamlFile (YMap [(YStr ''versions'', YMap [])])],
      trace = []\<rparr>"

definition example_manifest :: "(string \<times> json) list" where
  "example_manifest =
     [(''name'', JStr ''p''), (''version'', JStr ''1.0.0''), (''port-version'', JNum 1)]"

definition example_port_world :: world where
  "example_port_world =
     \<lparr>files = [''ports/p/vcpkg.json'' \<mapsto> JsonFile (JObj example_manifest),
               ''ports/p/portfile.cmake'' \<mapsto> TextFile ''REPO a/b''],
      trace = []\<rparr>"

text \<open>
  A recipe whose \<^verbatim>\<open>sources\<close> block is empty; an environment in which every command
  succeeds and every download returns a body; one in which the rebuild of the port
  fails; and command lines.
\<close>

definition example_empty_world :: world where
  "example_empty_world =
     \<lparr>files = [''recipes/p/all/conandata.yml'' \<mapsto> YamlFile (YMap [(YStr ''sources'', YMap [])])],
      trace = []\<rparr>"

definition example_env :: env where
  "example_env =
     \<lparr>run_result = (\<lambda>c w. (0, files w)),
      http_get = (\<lambda>u w. Some ''tarball''),
      sha256_hex = (\<lambda>b. replicate 64 CHR ''0''),
      sha512_hex = (\<lambda>b. replicate 128 CHR ''0''),
      gh_found = False,
      tmp_name = ''/tmp/body''\<rparr>"

definition failing_build_env :: env where
  "failing_build_env =
     example_env\<lparr>run_result :=
       (\<lambda>c w. (if c = Argv [''./vcpkg'', ''install'', ''p''] then 1 else 0, files w))\<rparr>"

definition example_conan_args :: "string \<Rightarrow> conan_args" where
  "example_conan_args ver =
     \<lparr>arg_recipe = ''p'', arg_version = ver, arg_repo_url = None, arg_prefix = ''jr'',
      arg_branch = None, arg_no_build = False, arg_no_pr = False,
      arg_push_remote = ''origin'', arg_rebase_remote = ''upstream''\<rparr>"

definition example_vcpkg_args :: "string \<Rightarrow> vcpkg_args" where
  "example_vcpkg_args ver =
     \<lparr>varg_name = ''p'', varg_version = ver, varg_prefix = ''jr'', varg_branch = None,
      varg_push_remote = ''origin'', varg_rebase_remote = ''upstream''\<rparr>"

section \<open>Basic facts about steps\<close>

lemma files_emit [simp]: "files (emit e w) = files w"
  by (simp add: emit_def)

lemma trace_emit [simp]: "trace (emit e w) = trace w @ [e]"
  by (simp add: emit_def)

lemma entries_atD:
  assumes "entries_at key w path = Some m"
  shows "\<exists>d. files w path = Some (YamlFile (YMap d)) \<and>
           setdefault d key (YMap []) =
             (if map_of d (YStr key) = None then d @ [(YStr key, YMap [])] else d, YMap m)"
  using assms
  by (auto simp: entries_at_def setdefault_def split: option.splits filedata.splits yaml.splits)

lemma entries_at_written:
  "entries_at key
     (emit e (emit e' (w\<lparr>files := (files w)(path \<mapsto>
        YamlFile (YMap (AList.update (YStr key) (YMap m) d)))\<rparr>))) path = Some m"
  by (simp add: entries_at_def update_conv')

lemma andthen_InrD:
  "andthen m f w = (Inr b, w') \<Longrightarrow> \<exists>a w1. m w = (Inr a, w1) \<and> f a w1 = (Inr b, w')"
  by (auto simp: andthen_def split: prod.splits sum.splits)

lemma seq_InrD:
  "seq m n w = (Inr b, w') \<Longrightarrow> \<exists>a w1. m w = (Inr a, w1) \<and> n w1 = (Inr b, w')"
  by (auto simp: seq_def dest: andthen_InrD)

lemma load_yaml_world: "load_yaml p w = (r, w') \<Longrightarrow> w' = w"
  by (auto simp: load_yaml_def split: option.splits filedata.splits)

lemma lift_world: "lift x w = (r, w') \<Longrightarrow> w' = w \<and> r = x"
  by (auto simp: lift_def)

lemma say_trace: "say m w = (r, w') \<Longrightarrow> w' = w\<lparr>trace := trace w @ [Print m]\<rparr> \<and> r = Inr ()"
  by (auto simp: say_def emit_def)

lemma compute_sha256_trace:
  "compute_sha256 E url w = (r, w') \<Longrightarrow> w' = w\<lparr>trace := trace w @ [Fetch url]\<rparr>"
  by (auto simp: compute_sha256_def emit_def split: option.splits)

lemma run_trace: "run E c w = (r, w') \<Longrightarrow> trace w' = trace w @ [Print (MExec c), Exec c]"
  by (auto simp: run_def Let_def split: prod.splits if_splits)

lemma executed_append: "executed (xs @ ys) = executed xs @ executed ys"
  by (induction xs rule: executed.induct) auto

text \<open>A list of commands that all succeed: they are what was executed, in order.\<close>

lemma run_all_ok:
  "run_all E cs w = (Inr u, w') \<Longrightarrow> \<exists>evs. trace w' = trace w @ evs \<and> executed evs = cs"
proof (induction cs arbitrary: w)
  case Nil
  then show ?case by (simp add: ret_def)
next
  case (Cons c cs)
  from Cons.prems obtain u1 w1 where
    1: "run E c w = (Inr u1, w1)" and 2: "run_all E cs w1 = (Inr u, w')"
    by (auto dest: seq_InrD)
  from Cons.IH [OF 2] obtain evs where e: "trace w' = trace w1 @ evs" "executed evs = cs"
    by blast
  from run_trace [OF 1] e show ?case
    by (intro exI [of _ "[Print (MExec c), Exec c] @ evs"]) simp
qed

section \<open>The metadata editor: insertion in front, and idempotence\<close>

lemma update_conandata_added:
  assumes "files w path = Some (YamlFile (YMap d))"
    and "setdefault d ''sources'' (YMap []) = (d1, YMap srcs)"
    and "YStr X \<notin> set (map fst srcs)"
  shows "update_conandata path X url sha w =
     (Inr True,
      emit (Print (MAddedEntry path X))
        (emit (Write path (YamlFile (YMap (AList.update (YStr ''sources'')
             (YMap ((YStr X, YMap [(YStr ''url'', YStr url), (YStr ''sha256'', YStr sha)]) # srcs)) d1))))
           (w\<lparr>files := (files w)(path \<mapsto> YamlFile (YMap (AList.update (YStr ''sources'')
             (YMap ((YStr X, YMap [(YStr ''url'', YStr url), (YStr ''sha256'', YStr sha)]) # srcs)) d1)))\<rparr>)))"
  using assms
  by (simp add: update_conandata_def andthen_def seq_def load_yaml_def lift_def say_def ret_def
      save_yaml_def write_file_def)

lemma update_conandata_present:
  assumes "files w path = Some (YamlFile (YMap d))"
    and "setdefault d ''sources'' (YMap []) = (d1, YMap srcs)"
    and "YStr X \<in> set (map fst srcs)"
  shows "update_conandata path X url sha w = (Inr False, emit (Print (MSkipEntry path X)) w)"
  using assms
  by (simp add: update_conandata_def andthen_def seq_def load_yaml_def lift_def say_def ret_def)

text \<open>
  Claim C3. Let the file at \<open>path\<close> hold a mapping whose \<^verbatim>\<open>sources\<close> block has the
  entries \<open>srcs\<close> (none when the block is missing), and let the string \<open>X\<close> be no key
  of it. Then \<^verbatim>\<open>update_conandata\<close> returns \<^verbatim>\<open>True\<close>, and the \<^verbatim>\<open>sources\<close> block of the
  file it leaves is the new entry followed by \<open>srcs\<close> itself: \<open>X\<close> is the first key,
  and the earlier entries follow it with their keys, their values and their order
  unchanged.
\<close>

theorem upsert_inserts_in_front:
  assumes "entries_at ''sources'' w path = Some srcs"
    and "YStr X \<notin> set (map fst srcs)"
  shows "\<exists>w' ents.
           update_conandata path X url sha w = (Inr True, w') \<and>
           entries_at ''sources'' w' path = Some ents \<and>
           ents = (YStr X, YMap [(YStr ''url'', YStr url), (YStr ''sha256'', YStr sha)]) # srcs \<and>
           map fst ents = YStr X # map fst srcs"
proof -
  from entries_atD [OF assms(1)] obtain d d1 where
    f: "files w path = Some (YamlFile (YMap d))" and
    sd: "setdefault d ''sources'' (YMap []) = (d1, YMap srcs)"
    by auto
  show ?thesis
    unfolding update_conandata_added [OF f sd assms(2)]
    by (simp add: entries_at_written)
qed

lemma example_world_entries:
  "entries_at ''sources'' example_world ''recipes/p/all/conandata.yml'' = Some example_sources"
  by (simp add: entries_at_def example_world_def)

theorem upsert_inserts_in_front_witness:
  "entries_at ''sources'' example_world ''recipes/p/all/conandata.yml'' = Some example_sources \<and>
   YStr ''1.0.1'' \<notin> set (map fst example_sources) \<and>
   (\<exists>w' ents.
      update_conandata ''recipes/p/all/conandata.yml'' ''1.0.1'' ''u'' ''s'' example_world = (Inr True, w') \<and>
      entries_at ''sources'' w' ''recipes/p/all/conandata.yml'' = Some ents \<and>
      ents = (YStr ''1.0.1'', YMap [(YStr ''url'', YStr ''u''), (YStr ''sha256'', YStr ''s'')]) # example_sources \<and>
      map fst ents = YStr ''1.0.1'' # map fst example_sources)"
proof -
  have k: "YStr ''1.0.1'' \<notin> set (map fst example_sources)"
    by (simp add: example_sources_def)
  from upsert_inserts_in_front [OF example_world_entries k, of "''u''" "''s''"] example_world_entries k
  show ?thesis by blast
qed

lemma update_conandata_TrueD:
  assumes "update_conandata path v url sha w = (Inr True, w1)"
  shows "\<exists>d d1 srcs. files w path = Some (YamlFile (YMap d)) \<and>
           setdefault d ''sources'' (YMap []) = (d1, YMap srcs) \<and> YStr v \<notin> set (map fst srcs)"
proof -
  from assms obtain d where f: "files w path = Some (YamlFile (YMap d))"
    by (auto simp: update_conandata_def andthen_def load_yaml_def raise_def
        split: option.splits filedata.splits yaml.splits)
  obtain d1 s where sd: "setdefault d ''sources'' (YMap []) = (d1, s)"
    by (cases "setdefault d ''sources'' (YMap [])") auto
  from assms f sd show ?thesis
    by (cases s)
      (auto simp: update_conandata_def andthen_def seq_def load_yaml_def lift_def say_def ret_def
        raise_def split: if_splits)
qed

lemma setdefault_updated:
  "map_of d1 (YStr k) \<noteq> None \<Longrightarrow>
     setdefault (AList.update (YStr k) v d1) k dflt = (AList.update (YStr k) v d1, v)"
  by (simp add: setdefault_def update_conv')

lemma setdefault_has_key:
  "setdefault d k dflt = (d1, v) \<Longrightarrow> map_of d1 (YStr k) = Some v"
  by (auto simp: setdefault_def map_add_def split: option.splits)

text \<open>
  Claim C2. If a call of \<^verbatim>\<open>update_conandata\<close> returns \<^verbatim>\<open>True\<close> (the entry was added)
  and leaves the world \<open>w1\<close>, the same call in \<open>w1\<close> returns \<^verbatim>\<open>False\<close> (already present)
  and leaves \<open>w1\<close> with one more printed line and nothing else: no file is written, so
  the file is what the first call left. And the presence check looks for the version as
  a string key: on a document whose \<^verbatim>\<open>sources\<close> block has the entries \<open>srcs\<close>, the call
  returns \<^verbatim>\<open>True\<close> exactly when no key of \<open>srcs\<close> is the string \<open>v\<close>, whatever other keys
  (the integer 1, say) there are.
\<close>

theorem upsert_twice:
  "(update_conandata path v url sha w = (Inr True, w1) \<longrightarrow>
      update_conandata path v url sha w1 =
        (Inr False, w1\<lparr>trace := trace w1 @ [Print (MSkipEntry path v)]\<rparr>)) \<and>
   (entries_at ''sources'' w path = Some srcs \<longrightarrow>
      fst (update_conandata path v url sha w) = Inr (YStr v \<notin> set (map fst srcs)))"
proof (intro conjI impI)
  assume a: "update_conandata path v url sha w = (Inr True, w1)"
  from update_conandata_TrueD [OF a] obtain d d1 srcs where
    f: "files w path = Some (YamlFile (YMap d))" and
    sd: "setdefault d ''sources'' (YMap []) = (d1, YMap srcs)" and
    k: "YStr v \<notin> set (map fst srcs)"
    by blast
  let ?new = "YMap ((YStr v, YMap [(YStr ''url'', YStr url), (YStr ''sha256'', YStr sha)]) # srcs)"
  let ?d2 = "AList.update (YStr ''sources'') ?new d1"
  from a update_conandata_added [OF f sd k, of url sha]
  have w1: "w1 = emit (Print (MAddedEntry path v)) (emit (Write path (YamlFile (YMap ?d2)))
           (w\<lparr>files := (files w)(path \<mapsto> YamlFile (YMap ?d2))\<rparr>))"
    by simp
  have f1: "files w1 path = Some (YamlFile (YMap ?d2))"
    by (simp add: w1)
  have "map_of d1 (YStr ''sources'') \<noteq> None"
    using setdefault_has_key [OF sd] by simp
  then have sd1: "setdefault ?d2 ''sources'' (YMap []) = (?d2, ?new)"
    by (rule setdefault_updated)
  have "update_conandata path v url sha w1 = (Inr False, emit (Print (MSkipEntry path v)) w1)"
    by (rule update_conandata_present [OF f1 sd1]) simp
  then show "update_conandata path v url sha w1 =
      (Inr False, w1\<lparr>trace := trace w1 @ [Print (MSkipEntry path v)]\<rparr>)"
    by (simp add: emit_def)
next
  assume e: "entries_at ''sources'' w path = Some srcs"
  from entries_atD [OF e] obtain d d1 where
    f: "files w path = Some (YamlFile (YMap d))" and
    sd: "setdefault d ''sources'' (YMap []) = (d1, YMap srcs)"
    by auto
  show "fst (update_conandata path v url sha w) = Inr (YStr v \<notin> set (map fst srcs))"
  proof (cases "YStr v \<in> set (map fst srcs)")
    case True
    then show ?thesis by (simp add: update_conandata_present [OF f sd])
  next
    case False
    then show ?thesis by (simp add: update_conandata_added [OF f sd])
  qed
qed

theorem upsert_twice_witness:
  "\<exists>w1. update_conandata ''recipes/p/all/conandata.yml'' ''1.0.1'' ''u'' ''s'' example_world = (Inr True, w1) \<and>
     update_conandata ''recipes/p/all/conandata.yml'' ''1.0.1'' ''u'' ''s'' w1 =
       (Inr False, w1\<lparr>trace := trace w1 @ [Print (MSkipEntry ''recipes/p/all/conandata.yml'' ''1.0.1'')]\<rparr>) \<and>
     entries_at ''sources'' example_world ''recipes/p/all/conandata.yml'' = Some example_sources \<and>
     fst (update_conandata ''recipes/p/all/conandata.yml'' ''1.0.1'' ''u'' ''s'' example_world) = Inr True"
proof -
  have t: "fst (update_conandata ''recipes/p/all/conandata.yml'' ''1.0.1'' ''u'' ''s'' example_world) =
      Inr (YStr ''1.0.1'' \<notin> set (map fst example_sources))"
    using upsert_twice example_world_entries by blast
  then have t': "fst (update_conandata ''recipes/p/all/conandata.yml'' ''1.0.1'' ''u'' ''s'' example_world) = Inr True"
    by (simp add: example_sources_def)
  then obtain w1 where
    a: "update_conandata ''recipes/p/all/conandata.yml'' ''1.0.1'' ''u'' ''s'' example_world = (Inr True, w1)"
    by (cases "update_conandata ''recipes/p/all/conandata.yml'' ''1.0.1'' ''u'' ''s'' example_world") simp
  from upsert_twice [of "''recipes/p/all/conandata.yml''" "''1.0.1''" "''u''" "''s''" example_world w1] a
  have "update_conandata ''recipes/p/all/conandata.yml'' ''1.0.1'' ''u'' ''s'' w1 =
       (Inr False, w1\<lparr>trace := trace w1 @ [Print (MSkipEntry ''recipes/p/all/conandata.yml'' ''1.0.1'')]\<rparr>)"
    by blast
  with a t' example_world_entries show ?thesis by blast
qed

section \<open>The companion index\<close>

lemma entries_at_exists: "entries_at key w path = Some m \<Longrightarrow> path_exists path w"
  by (auto simp: entries_at_def path_exists_def split: option.splits)

lemma update_config_missing:
  "\<not> path_exists path w \<Longrightarrow>
     update_config path v w = (Inr False, w\<lparr>trace := trace w @ [Print (MWarnConfigNotFound path)]\<rparr>)"
  by (simp add: update_config_def seq_def andthen_def say_def ret_def emit_def)

lemma update_config_empty:
  assumes "entries_at ''versions'' w path = Some []"
  shows "update_config path v w = (Inr False, w\<lparr>trace := trace w @ [Print MWarnConfigEmpty]\<rparr>)"
proof -
  from entries_atD [OF assms] obtain d d1 where
    f: "files w path = Some (YamlFile (YMap d))" and
    sd: "setdefault d ''versions'' (YMap []) = (d1, YMap [])"
    by auto
  from entries_at_exists [OF assms] f sd show ?thesis
    by (simp add: update_config_def seq_def andthen_def say_def ret_def emit_def load_yaml_def lift_def)
qed

lemma update_config_copies:
  assumes "entries_at ''versions'' w path = Some ((k, val) # vs)"
    and "YStr v \<notin> set (map fst ((k, val) # vs))"
  shows "\<exists>w'. update_config path v w = (Inr True, w') \<and>
               entries_at ''versions'' w' path = Some ((YStr v, val) # (k, val) # vs)"
proof -
  from entries_atD [OF assms(1)] obtain d d1 where
    f: "files w path = Some (YamlFile (YMap d))" and
    sd: "setdefault d ''versions'' (YMap []) = (d1, YMap ((k, val) # vs))"
    by auto
  let ?d2 = "AList.update (YStr ''versions'') (YMap ((YStr v, val) # (k, val) # vs)) d1"
  from entries_at_exists [OF assms(1)] f sd assms(2)
  have "update_config path v w =
          (Inr True, emit (Print (MAddedConfig v k)) (emit (Write path (YamlFile (YMap ?d2)))
             (w\<lparr>files := (files w)(path \<mapsto> YamlFile (YMap ?d2))\<rparr>)))"
    by (simp add: update_config_def seq_def andthen_def say_def ret_def load_yaml_def lift_def
        save_yaml_def write_file_def)
  then show ?thesis
    by (simp add: entries_at_written)
qed

text \<open>
  Claim C7, as the code has it. When the companion file does not exist,
  \<^verbatim>\<open>update_config\<close> returns \<^verbatim>\<open>False\<close>, writes nothing and prints a warning (it is not
  silent). When the file exists and its \<^verbatim>\<open>versions\<close> block has no entry, it returns
  \<^verbatim>\<open>False\<close>, writes nothing and prints a warning. When the block has entries and none
  is the new version, it returns \<^verbatim>\<open>True\<close> and the block of the file it leaves is the new
  version, with a copy of the value of the entry that was first, followed by the old
  entries.
\<close>

theorem config_update_cases:
  "(\<not> path_exists path w \<longrightarrow>
      update_config path v w =
        (Inr False, w\<lparr>trace := trace w @ [Print (MWarnConfigNotFound path)]\<rparr>)) \<and>
   (entries_at ''versions'' w path = Some [] \<longrightarrow>
      update_config path v w = (Inr False, w\<lparr>trace := trace w @ [Print MWarnConfigEmpty]\<rparr>)) \<and>
   (entries_at ''versions'' w path = Some ((k, val) # vs) \<and>
    YStr v \<notin> set (map fst ((k, val) # vs)) \<longrightarrow>
      (\<exists>w'. update_config path v w = (Inr True, w') \<and>
            entries_at ''versions'' w' path = Some ((YStr v, val) # (k, val) # vs))) \<and>
   tag_of (MWarnConfigNotFound path) = TWarn \<and> tag_of MWarnConfigEmpty = TWarn"
  using update_config_missing update_config_empty update_config_copies by simp

lemma example_world_no_config: "\<not> path_exists ''recipes/p/config.yml'' example_world"
  by (simp add: path_exists_def example_world_def)

lemma example_config_entries:
  "entries_at ''versions'' example_config_world ''recipes/p/config.yml'' = Some example_versions"
  by (simp add: entries_at_def example_config_world_def)

lemma example_empty_config_entries:
  "entries_at ''versions'' example_empty_config_world ''recipes/p/config.yml'' = Some []"
  by (simp add: entries_at_def example_empty_config_world_def)

theorem config_update_cases_witness:
  "\<not> path_exists ''recipes/p/config.yml'' example_world \<and>
   update_config ''recipes/p/config.yml'' ''1.0.1'' example_world =
     (Inr False, example_world\<lparr>trace := trace example_world @
        [Print (MWarnConfigNotFound ''recipes/p/config.yml'')]\<rparr>) \<and>
   entries_at ''versions'' example_empty_config_world ''recipes/p/config.yml'' = Some [] \<and>
   update_config ''recipes/p/config.yml'' ''1.0.1'' example_empty_config_world =
     (Inr False, example_empty_config_world\<lparr>trace := trace example_empty_config_world @
        [Print MWarnConfigEmpty]\<rparr>) \<and>
   entries_at ''versions'' example_config_world ''recipes/p/config.yml'' =
     Some [(YStr ''1.0.0'', YMap [(YStr ''folder'', YStr ''all'')])] \<and>
   (\<exists>w'. update_config ''recipes/p/config.yml'' ''1.0.1'' example_config_world = (Inr True, w') \<and>
         entries_at ''versions'' w' ''recipes/p/config.yml'' =
           Some [(YStr ''1.0.1'', YMap [(YStr ''folder'', YStr ''all'')]),
                 (YStr ''1.0.0'', YMap [(YStr ''folder'', YStr ''all'')])])"
proof -
  have e: "entries_at ''versions'' example_config_world ''recipes/p/config.yml'' =
      Some ((YStr ''1.0.0'', YMap [(YStr ''folder'', YStr ''all'')]) # [])"
    using example_config_entries by (simp add: example_versions_def)
  have k: "YStr ''1.0.1'' \<notin> set (map fst ((YStr ''1.0.0'', YMap [(YStr ''folder'', YStr ''all'')]) # []))"
    by simp
  have 1: "update_config ''recipes/p/config.yml'' ''1.0.1'' example_world =
     (Inr False, example_world\<lparr>trace := trace example_world @
        [Print (MWarnConfigNotFound ''recipes/p/config.yml'')]\<rparr>)"
    using config_update_cases [of "''recipes/p/config.yml''" example_world "''1.0.1''"]
      example_world_no_config by blast
  have 2: "update_config ''recipes/p/config.yml'' ''1.0.1'' example_empty_config_world =
     (Inr False, example_empty_config_world\<lparr>trace := trace example_empty_config_world @
        [Print MWarnConfigEmpty]\<rparr>)"
    using config_update_cases [of "''recipes/p/config.yml''" example_empty_config_world "''1.0.1''"]
      example_empty_config_entries by blast
  have 3: "\<exists>w'. update_config ''recipes/p/config.yml'' ''1.0.1'' example_config_world = (Inr True, w') \<and>
         entries_at ''versions'' w' ''recipes/p/config.yml'' =
           Some [(YStr ''1.0.1'', YMap [(YStr ''folder'', YStr ''all'')]),
                 (YStr ''1.0.0'', YMap [(YStr ''folder'', YStr ''all'')])]"
    using config_update_cases [of "''recipes/p/config.yml''" example_config_world "''1.0.1''"
        "YStr ''1.0.0''" "YMap [(YStr ''folder'', YStr ''all'')]" "[]"] e k
    by blast
  from 1 2 3 e example_world_no_config example_empty_config_entries show ?thesis
    by simp
qed

text \<open>
  Claim C7 as the specification states it says that the editor is silent when the
  companion file does not exist. It is not: the world of the example has no
  \<^verbatim>\<open>config.yml\<close>, and the call prints a line tagged as a warning.
\<close>

theorem config_missing_is_not_silent:
  "\<not> path_exists ''recipes/p/config.yml'' example_world \<and>
   update_config ''recipes/p/config.yml'' ''1.0.1'' example_world =
     (Inr False, example_world\<lparr>trace := [Print (MWarnConfigNotFound ''recipes/p/config.yml'')]\<rparr>) \<and>
   tag_of (MWarnConfigNotFound ''recipes/p/config.yml'') = TWarn \<and>
   trace (snd (update_config ''recipes/p/config.yml'' ''1.0.1'' example_world)) \<noteq> trace example_world"
proof -
  have t: "trace example_world = []"
    by (simp add: example_world_def)
  show ?thesis
    using example_world_no_config by (simp add: update_config_missing t)
qed

section \<open>The manifest editor of \<^verbatim>\<open>bump-vcpkg.py\<close>\<close>

text \<open>
  Claim C9. When the file holds a JSON object with the entries \<open>d\<close>,
  \<^verbatim>\<open>update_vcpkg_json\<close> returns normally and changes this one file only; in the object
  it writes, \<^verbatim>\<open>version\<close> is the new version, every other key has the value it had,
  and the keys stand in the order they had, with \<^verbatim>\<open>version\<close> added at the end when it
  was missing. (The file is a document here, so its indentation and final newline are
  not part of the statement.)
\<close>

theorem manifest_edit_frame:
  assumes "files w path = Some (JsonFile (JObj d))"
  shows "\<exists>w' d'. update_vcpkg_json path nv w = (Inr (), w') \<and>
           files w' = (files w)(path \<mapsto> JsonFile (JObj d')) \<and>
           map_of d' ''version'' = Some (JStr nv) \<and>
           (\<forall>k. k \<noteq> ''version'' \<longrightarrow> map_of d' k = map_of d k) \<and>
           map fst d' = (if ''version'' \<in> set (map fst d) then map fst d
                         else map fst d @ [''version''])"
proof -
  let ?d' = "AList.update ''version'' (JStr nv) d"
  have "update_vcpkg_json path nv w =
          (Inr (), emit (Print (MEditVersion (case map_of d ''version'' of Some x \<Rightarrow> x | None \<Rightarrow> JStr []) nv path))
             (emit (Write path (JsonFile (JObj ?d')))
                (w\<lparr>files := (files w)(path \<mapsto> JsonFile (JObj ?d'))\<rparr>)))"
    using assms
    by (simp add: update_vcpkg_json_def andthen_def seq_def load_json_def write_file_def say_def)
  moreover have "map_of ?d' ''version'' = Some (JStr nv)"
    by (simp add: update_conv')
  moreover have "\<forall>k. k \<noteq> ''version'' \<longrightarrow> map_of ?d' k = map_of d k"
    by (simp add: update_conv')
  moreover have "map fst ?d' = (if ''version'' \<in> set (map fst d) then map fst d
                                else map fst d @ [''version''])"
    by (simp add: update_keys)
  ultimately show ?thesis
    by (intro exI [of _ "emit _ (emit _ (w\<lparr>files := (files w)(path \<mapsto> JsonFile (JObj ?d'))\<rparr>))"]
        exI [of _ ?d']) simp
qed

theorem manifest_edit_frame_witness:
  "files example_port_world ''ports/p/vcpkg.json'' = Some (JsonFile (JObj example_manifest)) \<and>
   (\<exists>w' d'. update_vcpkg_json ''ports/p/vcpkg.json'' ''1.0.1'' example_port_world = (Inr (), w') \<and>
      files w' = (files example_port_world)(''ports/p/vcpkg.json'' \<mapsto> JsonFile (JObj d')) \<and>
      map_of d' ''version'' = Some (JStr ''1.0.1'') \<and>
      map_of d' ''name'' = Some (JStr ''p'') \<and>
      map_of d' ''port-version'' = Some (JNum 1) \<and>
      map fst d' = [''name'', ''version'', ''port-version''])"
proof -
  have f: "files example_port_world ''ports/p/vcpkg.json'' = Some (JsonFile (JObj example_manifest))"
    by (simp add: example_port_world_def)
  from manifest_edit_frame [OF f, of "''1.0.1''"] obtain w' d' where
    r: "update_vcpkg_json ''ports/p/vcpkg.json'' ''1.0.1'' example_port_world = (Inr (), w')" and
    fs: "files w' = (files example_port_world)(''ports/p/vcpkg.json'' \<mapsto> JsonFile (JObj d'))" and
    v: "map_of d' ''version'' = Some (JStr ''1.0.1'')" and
    o: "\<forall>k. k \<noteq> ''version'' \<longrightarrow> map_of d' k = map_of example_manifest k" and
    ks: "map fst d' = (if ''version'' \<in> set (map fst example_manifest) then map fst example_manifest
                         else map fst example_manifest @ [''version''])"
    by blast
  from o have "map_of d' ''name'' = Some (JStr ''p'')" "map_of d' ''port-version'' = Some (JNum 1)"
    by (simp_all add: example_manifest_def)
  moreover from ks have "map fst d' = [''name'', ''version'', ''port-version'']"
    by (simp add: example_manifest_def)
  ultimately show ?thesis
    using f r fs v by - (intro conjI exI [of _ w'] exI [of _ d'], assumption+)
qed

section \<open>The release workflow of \<^verbatim>\<open>bump-conan.py\<close>: where it stops\<close>

lemma detect_folder_world: "detect_folder rd w = (r, w') \<Longrightarrow> w' = w"
  by (auto simp: detect_folder_def andthen_def ret_def lift_def load_yaml_def Let_def
      split: if_splits option.splits filedata.splits sum.splits prod.splits)

lemma conan_tarball_url_world: "conan_tarball_url a cd w = (r, w') \<Longrightarrow> w' = w"
  by (auto simp: conan_tarball_url_def andthen_def ret_def lift_def load_yaml_def
      split: option.splits if_splits filedata.splits)

lemma derive_tarball_url_none:
  assumes "map_of d (YStr ''sources'') = None \<or>
           (\<exists>v. map_of d (YStr ''sources'') = Some v \<and> \<not> truthy v)"
  shows "derive_tarball_url (YMap d) nv = Inl NoSourcesBlock"
  using assms by (auto simp: derive_tarball_url_def)

lemma derive_tarball_url_first:
  assumes "map_of d (YStr ''sources'') = Some (YMap ((k, YMap e) # rest))"
    and "map_of e (YStr ''url'') = Some (YStr u)"
  shows "derive_tarball_url (YMap d) nv = derive_url u nv"
  using assms by (simp add: derive_tarball_url_def)

lemma conan_main_no_sources:
  assumes "arg_repo_url a = None \<or> arg_repo_url a = Some []"
    and "detect_folder (path_join ''recipes'' (arg_recipe a)) w = (Inr (YStr folder), w0)"
    and "files w (path_join (path_join (path_join ''recipes'' (arg_recipe a)) folder) ''conandata.yml'')
           = Some (YamlFile (YMap d))"
    and "map_of d (YStr ''sources'') = None \<or>
         (\<exists>v. map_of d (YStr ''sources'') = Some v \<and> \<not> truthy v)"
  shows "conan_main E a w = (Inl NoSourcesBlock, w)"
proof -
  let ?cd = "path_join (path_join (path_join ''recipes'' (arg_recipe a)) folder) ''conandata.yml''"
  from detect_folder_world [OF assms(2)] have w0: "w0 = w" .
  have "conan_tarball_url a ?cd w = (Inl NoSourcesBlock, w)"
    using assms(1,3) derive_tarball_url_none [OF assms(4)]
    by (auto simp: conan_tarball_url_def andthen_def load_yaml_def lift_def)
  then have "conan_prepare E a w = (Inl NoSourcesBlock, w)"
    using assms(2,3) w0
    by (simp add: conan_prepare_def Let_def andthen_def seq_def lift_def path_exists_def ret_def)
  then show ?thesis
    by (simp add: conan_main_def andthen_def)
qed

text \<open>
  Claim C8. The sample URL is the \<^verbatim>\<open>url\<close> of the first entry of \<^verbatim>\<open>sources\<close>: the result
  of \<^verbatim>\<open>derive_tarball_url\<close> is that of the substitution on this URL. When \<^verbatim>\<open>sources\<close>
  is missing, or is there and empty (or any other value Python takes for false), the
  deriver raises the \<^verbatim>\<open>RuntimeError\<close> "Cannot infer repo URL". In \<^verbatim>\<open>main\<close>, called
  without \<^verbatim>\<open>--repo-url\<close> on such a document, this error ends the run and the world is
  the one the run started in: by then the script has only looked for and read the two
  YAML files, so nothing was downloaded, no command was run, no file was written.
\<close>

theorem deriver_uses_first_entry_and_needs_sources:
  "(map_of d (YStr ''sources'') = Some (YMap ((k, YMap e) # others)) \<and>
    map_of e (YStr ''url'') = Some (YStr u) \<longrightarrow>
      derive_tarball_url (YMap d) nv = derive_url u nv) \<and>
   (map_of d (YStr ''sources'') = None \<or>
    (\<exists>v. map_of d (YStr ''sources'') = Some v \<and> \<not> truthy v) \<longrightarrow>
      derive_tarball_url (YMap d) nv = Inl NoSourcesBlock) \<and>
   ((arg_repo_url a = None \<or> arg_repo_url a = Some []) \<and>
    detect_folder (path_join ''recipes'' (arg_recipe a)) w = (Inr (YStr folder), w0) \<and>
    files w (path_join (path_join (path_join ''recipes'' (arg_recipe a)) folder) ''conandata.yml'')
      = Some (YamlFile (YMap d)) \<and>
    (map_of d (YStr ''sources'') = None \<or>
     (\<exists>v. map_of d (YStr ''sources'') = Some v \<and> \<not> truthy v)) \<longrightarrow>
      conan_main E a w = (Inl NoSourcesBlock, w) \<and> exit_status (fst (conan_main E a w)) = 1)"
proof (intro conjI impI)
  assume "map_of d (YStr ''sources'') = Some (YMap ((k, YMap e) # others)) \<and>
    map_of e (YStr ''url'') = Some (YStr u)"
  then show "derive_tarball_url (YMap d) nv = derive_url u nv"
    by (simp add: derive_tarball_url_first)
next
  assume "map_of d (YStr ''sources'') = None \<or>
    (\<exists>v. map_of d (YStr ''sources'') = Some v \<and> \<not> truthy v)"
  then show "derive_tarball_url (YMap d) nv = Inl NoSourcesBlock"
    by (rule derive_tarball_url_none)
next
  assume h: "(arg_repo_url a = None \<or> arg_repo_url a = Some []) \<and>
    detect_folder (path_join ''recipes'' (arg_recipe a)) w = (Inr (YStr folder), w0) \<and>
    files w (path_join (path_join (path_join ''recipes'' (arg_recipe a)) folder) ''conandata.yml'')
      = Some (YamlFile (YMap d)) \<and>
    (map_of d (YStr ''sources'') = None \<or>
     (\<exists>v. map_of d (YStr ''sources'') = Some v \<and> \<not> truthy v))"
  then have m: "conan_main E a w = (Inl NoSourcesBlock, w)"
    by (intro conan_main_no_sources [of a w folder w0 d]) simp_all
  then show "conan_main E a w = (Inl NoSourcesBlock, w)" .
  from m show "exit_status (fst (conan_main E a w)) = 1" by simp
qed

theorem deriver_uses_first_entry_and_needs_sources_witness:
  "derive_tarball_url (YMap [(YStr ''sources'', YMap example_sources)]) ''1.0.1'' =
     derive_url ''https://x/archive/v1.0.0.tar.gz'' ''1.0.1'' \<and>
   derive_tarball_url (YMap []) ''1.0.1'' = Inl NoSourcesBlock \<and>
   derive_tarball_url (YMap [(YStr ''sources'', YMap [])]) ''1.0.1'' = Inl NoSourcesBlock \<and>
   arg_repo_url (example_conan_args ''1.0.1'') = None \<and>
   detect_folder (path_join ''recipes'' (arg_recipe (example_conan_args ''1.0.1''))) example_empty_world =
     (Inr (YStr ''all''), example_empty_world) \<and>
   conan_main example_env (example_conan_args ''1.0.1'') example_empty_world =
     (Inl NoSourcesBlock, example_empty_world)"
proof -
  have 1: "derive_tarball_url (YMap [(YStr ''sources'', YMap example_sources)]) ''1.0.1'' =
     derive_url ''https://x/archive/v1.0.0.tar.gz'' ''1.0.1''"
    using deriver_uses_first_entry_and_needs_sources
      [of "[(YStr ''sources'', YMap example_sources)]" "YStr ''1.0.0''"
          "[(YStr ''url'', YStr ''https://x/archive/v1.0.0.tar.gz''), (YStr ''sha256'', YStr ''00'')]"
          "[]" "''https://x/archive/v1.0.0.tar.gz''" "''1.0.1''"]
    by (simp add: example_sources_def)
  have 2: "derive_tarball_url (YMap []) ''1.0.1'' = Inl NoSourcesBlock"
    using deriver_uses_first_entry_and_needs_sources [of "[]"] by simp
  have 3: "derive_tarball_url (YMap [(YStr ''sources'', YMap [])]) ''1.0.1'' = Inl NoSourcesBlock"
    using deriver_uses_first_entry_and_needs_sources [of "[(YStr ''sources'', YMap [])]"] by simp
  have a: "arg_repo_url (example_conan_args ''1.0.1'') = None"
    by (simp add: example_conan_args_def)
  have r: "arg_recipe (example_conan_args ''1.0.1'') = ''p''"
    by (simp add: example_conan_args_def)
  have df: "detect_folder (path_join ''recipes'' (arg_recipe (example_conan_args ''1.0.1''))) example_empty_world =
     (Inr (YStr ''all''), example_empty_world)"
    by (simp add: detect_folder_def r path_join_def path_exists_def example_empty_world_def ret_def)
  have f: "files example_empty_world
     (path_join (path_join (path_join ''recipes'' (arg_recipe (example_conan_args ''1.0.1''))) ''all'')
        ''conandata.yml'') = Some (YamlFile (YMap [(YStr ''sources'', YMap [])]))"
    by (simp add: r path_join_def example_empty_world_def)
  have s: "\<exists>v. map_of [(YStr ''sources'', YMap [])] (YStr ''sources'') = Some v \<and> \<not> truthy v"
    by simp
  have 4: "conan_main example_env (example_conan_args ''1.0.1'') example_empty_world =
     (Inl NoSourcesBlock, example_empty_world)"
    using deriver_uses_first_entry_and_needs_sources
      [of "[(YStr ''sources'', YMap [])]" _ _ _ _ _ "example_conan_args ''1.0.1''" example_empty_world
          "''all''" example_empty_world example_env] a df f s
    by blast
  from 1 2 3 4 a df show ?thesis by simp
qed

lemma update_conandata_FalseD:
  assumes "update_conandata p v u s w1 = (Inr False, w2)"
  shows "w2 = w1\<lparr>trace := trace w1 @ [Print (MSkipEntry p v)]\<rparr>"
proof -
  from assms obtain d where f: "files w1 p = Some (YamlFile (YMap d))"
    by (auto simp: update_conandata_def andthen_def load_yaml_def raise_def
        split: option.splits filedata.splits yaml.splits)
  obtain d1 srcs where sd: "setdefault d ''sources'' (YMap []) = (d1, srcs)"
    by (cases "setdefault d ''sources'' (YMap [])") auto
  from assms f sd show ?thesis
    by (cases srcs)
      (auto simp: update_conandata_def andthen_def seq_def load_yaml_def lift_def say_def ret_def
        raise_def save_yaml_def write_file_def emit_def split: if_splits)
qed

text \<open>
  When the preparation succeeds, the commands it has run are the five \<^verbatim>\<open>git\<close>
  commands of the sync and branch stages.
\<close>

lemma conan_prepare_ok:
  assumes "conan_prepare E a w = (Inr (sub, cd, url, sha, br), w1)"
  shows "\<exists>evs. trace w1 = trace w @ evs \<and> executed evs = conan_git_sync a br"
  using assms unfolding conan_prepare_def Let_def
  by (auto dest!: andthen_InrD seq_InrD detect_folder_world lift_world conan_tarball_url_world
      say_trace compute_sha256_trace run_all_ok simp: ret_def raise_def executed_append
      split: if_splits)

text \<open>
  Claim C5, for \<^verbatim>\<open>bump-conan.py\<close>. Take a run whose preparation succeeds and whose call
  of \<^verbatim>\<open>update_conandata\<close> returns \<^verbatim>\<open>False\<close> (the entry is already there). Then \<^verbatim>\<open>main\<close>
  returns normally, so the exit status is 0; the edit leaves every file as it was; and
  the commands the whole run has executed are the five \<^verbatim>\<open>git\<close> commands of the sync and
  branch stages, none of which is a commit. After the editor's report the run only
  prints a line.
\<close>

theorem conan_already_present_stops_before_commit:
  assumes "conan_prepare E a w = (Inr (sub, cd, url, sha, br), w1)"
    and "update_conandata cd (arg_version a) url sha w1 = (Inr False, w2)"
  shows "conan_main E a w = (Inr (), w2\<lparr>trace := trace w2 @ [Print MNothingToCommit]\<rparr>) \<and>
         exit_status (fst (conan_main E a w)) = 0 \<and>
         files w2 = files w1 \<and>
         (\<exists>evs. trace w2 = trace w @ evs @ [Print (MSkipEntry cd (arg_version a))] \<and>
                executed evs = conan_git_sync a br) \<and>
         \<not> list_ex is_commit (conan_git_sync a br)"
proof -
  have m: "conan_main E a w = (Inr (), w2\<lparr>trace := trace w2 @ [Print MNothingToCommit]\<rparr>)"
    using assms by (simp add: conan_main_def andthen_def say_def emit_def)
  from update_conandata_FalseD [OF assms(2)]
  have w2: "w2 = w1\<lparr>trace := trace w1 @ [Print (MSkipEntry cd (arg_version a))]\<rparr>" .
  from conan_prepare_ok [OF assms(1)] obtain evs where
    e: "trace w1 = trace w @ evs" "executed evs = conan_git_sync a br"
    by blast
  have c: "\<not> list_ex is_commit (conan_git_sync a br)"
    by (simp add: conan_git_sync_def)
  from m w2 e c show ?thesis
    by auto
qed

section \<open>Runs in the example environments\<close>

lemma run_example:
  "run example_env c w = (Inr (), w\<lparr>trace := trace w @ [Print (MExec c), Exec c]\<rparr>)"
  by (simp add: run_def example_env_def emit_def)

lemma run_all_example:
  "run_all example_env cs w =
     (Inr (), w\<lparr>trace := trace w @ concat (map (\<lambda>c. [Print (MExec c), Exec c]) cs)\<rparr>)"
  by (induction cs arbitrary: w) (simp_all add: ret_def seq_def andthen_def run_example)

lemma run_failing_build:
  "run failing_build_env c w =
     (if c = Argv [''./vcpkg'', ''install'', ''p''] then Inl (CalledProcessError 1) else Inr (),
      w\<lparr>trace := trace w @ [Print (MExec c), Exec c]\<rparr>)"
  by (simp add: run_def failing_build_env_def example_env_def emit_def)

lemma example_env_fields:
  "http_get example_env = (\<lambda>u w. Some ''tarball'')"
  "sha256_hex example_env = (\<lambda>b. replicate 64 CHR ''0'')"
  "sha512_hex example_env = (\<lambda>b. replicate 128 CHR ''0'')"
  "gh_found example_env = False"
  by (simp_all add: example_env_def)

lemma failing_build_env_fields:
  "http_get failing_build_env = (\<lambda>u w. Some ''tarball'')"
  "sha512_hex failing_build_env = (\<lambda>b. replicate 128 CHR ''0'')"
  "gh_found failing_build_env = False"
  by (simp_all add: failing_build_env_def example_env_def)

lemma repo_found: "re_search repo_pattern ''REPO a/b'' = Some ([], [''a/b''], [])"
  by code_simp

lemma portfile_unchanged: "new_portfile ''REPO a/b'' (replicate 128 CHR ''0'') = Inr ''REPO a/b''"
  by code_simp

lemma derive_example:
  "derive_url ''https://x/archive/v1.0.0.tar.gz'' ''1.0.0'' = Inr ''https://x/archive/v1.0.0.tar.gz''"
  by code_simp

lemmas vcpkg_steps = vcpkg_main_def Let_def vcpkg_prepare_def branch_name_def path_join_def
  example_vcpkg_args_def seq_def andthen_def read_text_def example_port_world_def repo_found
  fetch_tarball_sha512_def say_def emit_def update_vcpkg_json_def load_json_def write_file_def
  update_portfile_sha512_def lift_def portfile_unchanged vcpkg_pr_def
  vcpkg_git_sync_def vcpkg_commit_build_push_def ret_def example_manifest_def

lemmas conan_steps = conan_prepare_def conan_main_def Let_def detect_folder_def path_exists_def
  path_join_def example_conan_args_def example_world_def seq_def andthen_def ret_def raise_def
  lift_def conan_tarball_url_def load_yaml_def derive_tarball_url_def example_sources_def say_def
  emit_def compute_sha256_def branch_name_def update_conandata_def setdefault_def
  run_all_example example_env_fields derive_example

lemma example_prepare:
  "fst (conan_prepare example_env (example_conan_args ''1.0.0'') example_world) =
     Inr (''recipes/p/all'', ''recipes/p/all/conandata.yml'', ''https://x/archive/v1.0.0.tar.gz'',
          replicate 64 CHR ''0'', ''jr/p-1.0.0'')"
  by (simp add: conan_steps)

lemma example_edit:
  "fst (update_conandata ''recipes/p/all/conandata.yml'' (arg_version (example_conan_args ''1.0.0''))
      ''https://x/archive/v1.0.0.tar.gz'' (replicate 64 CHR ''0'')
      (snd (conan_prepare example_env (example_conan_args ''1.0.0'') example_world))) = Inr False"
  by (simp add: conan_steps)

theorem conan_already_present_stops_before_commit_witness:
  "fst (conan_prepare example_env (example_conan_args ''1.0.0'') example_world) =
     Inr (''recipes/p/all'', ''recipes/p/all/conandata.yml'', ''https://x/archive/v1.0.0.tar.gz'',
          replicate 64 CHR ''0'', ''jr/p-1.0.0'') \<and>
   fst (update_conandata ''recipes/p/all/conandata.yml'' (arg_version (example_conan_args ''1.0.0''))
      ''https://x/archive/v1.0.0.tar.gz'' (replicate 64 CHR ''0'')
      (snd (conan_prepare example_env (example_conan_args ''1.0.0'') example_world))) = Inr False \<and>
   fst (conan_main example_env (example_conan_args ''1.0.0'') example_world) = Inr () \<and>
   exit_status (fst (conan_main example_env (example_conan_args ''1.0.0'') example_world)) = 0 \<and>
   \<not> list_ex is_commit (conan_git_sync (example_conan_args ''1.0.0'') ''jr/p-1.0.0'')"
proof -
  let ?w1 = "snd (conan_prepare example_env (example_conan_args ''1.0.0'') example_world)"
  let ?w2 = "snd (update_conandata ''recipes/p/all/conandata.yml''
      (arg_version (example_conan_args ''1.0.0''))
      ''https://x/archive/v1.0.0.tar.gz'' (replicate 64 CHR ''0'') ?w1)"
  have p: "conan_prepare example_env (example_conan_args ''1.0.0'') example_world =
      (Inr (''recipes/p/all'', ''recipes/p/all/conandata.yml'', ''https://x/archive/v1.0.0.tar.gz'',
          replicate 64 CHR ''0'', ''jr/p-1.0.0''), ?w1)"
    using example_prepare by (metis prod.collapse)
  have e: "update_conandata ''recipes/p/all/conandata.yml'' (arg_version (example_conan_args ''1.0.0''))
      ''https://x/archive/v1.0.0.tar.gz'' (replicate 64 CHR ''0'') ?w1 = (Inr False, ?w2)"
    using example_edit by (metis prod.collapse)
  from conan_already_present_stops_before_commit [OF p e] example_prepare example_edit
  show ?thesis
    by simp
qed

text \<open>
  Claim C5 as the specification states it covers both scripts. \<^verbatim>\<open>bump-vcpkg.py\<close> has
  no such check: its manifest editor returns nothing and always writes. In the example
  port the manifest already records version 1.0.0; a run for 1.0.0, with every command
  succeeding, goes on to both commits and to the push.
\<close>

theorem vcpkg_recorded_version_is_committed:
  "files example_port_world ''ports/p/vcpkg.json'' = Some (JsonFile (JObj example_manifest)) \<and>
   map_of example_manifest ''version'' = Some (JStr (varg_version (example_vcpkg_args ''1.0.0''))) \<and>
   fst (vcpkg_main example_env (example_vcpkg_args ''1.0.0'') example_port_world) = Inr () \<and>
   executed (trace (snd (vcpkg_main example_env (example_vcpkg_args ''1.0.0'') example_port_world))) =
     [Argv [''git'', ''checkout'', ''master''], Argv [''git'', ''fetch'', ''upstream''],
      Argv [''git'', ''rebase'', ''upstream/master''], Argv [''git'', ''push''],
      Argv [''git'', ''checkout'', ''-b'', ''jr/p-1.0.0''],
      Argv [''git'', ''commit'', ''-am'', ''[p] Bump to 1.0.0''],
      Shell ''rm -rf installed packages downloads'', Argv [''./vcpkg'', ''install'', ''p''],
      Argv [''./vcpkg'', ''x-add-version'', ''p'', ''--overwrite-version''],
      Argv [''git'', ''commit'', ''-am'', ''x-add''],
      Argv [''git'', ''push'', ''-u'', ''origin'', ''jr/p-1.0.0'']] \<and>
   is_commit (Argv [''git'', ''commit'', ''-am'', ''[p] Bump to 1.0.0''])"
  by (simp add: vcpkg_steps run_example example_env_fields)

text \<open>
  Claim C4 at a failing input: \<^verbatim>\<open>bump-vcpkg.py\<close> for port \<^verbatim>\<open>p\<close> and version 1.0.1,
  in an environment where \<^verbatim>\<open>./vcpkg install p\<close> exits with status 1. The run ends with
  \<^verbatim>\<open>CalledProcessError\<close>, and the commands it has executed by then include the commit
  of the port update: the rebuild comes after that commit.
\<close>

theorem vcpkg_commits_before_build:
  "fst (vcpkg_main failing_build_env (example_vcpkg_args ''1.0.1'') example_port_world) =
     Inl (CalledProcessError 1) \<and>
   executed (trace (snd (vcpkg_main failing_build_env (example_vcpkg_args ''1.0.1'') example_port_world))) =
     [Argv [''git'', ''checkout'', ''master''], Argv [''git'', ''fetch'', ''upstream''],
      Argv [''git'', ''rebase'', ''upstream/master''], Argv [''git'', ''push''],
      Argv [''git'', ''checkout'', ''-b'', ''jr/p-1.0.1''],
      Argv [''git'', ''commit'', ''-am'', ''[p] Bump to 1.0.1''],
      Shell ''rm -rf installed packages downloads'', Argv [''./vcpkg'', ''install'', ''p'']] \<and>
   is_commit (Argv [''git'', ''commit'', ''-am'', ''[p] Bump to 1.0.1''])"
  by (simp add: vcpkg_steps run_failing_build failing_build_env_fields)

section \<open>Matching against a continuation\<close>

lemma first_some_append:
  "first_some K (xs @ ys) = (case first_some K xs of Some y \<Rightarrow> Some y | None \<Rightarrow> first_some K ys)"
  by (induction xs) (auto split: option.splits)

lemma first_some_map: "first_some K (map h xs) = first_some (\<lambda>x. K (h x)) xs"
  by (induction xs) (auto split: option.splits)

lemma first_some_concat: "first_some K (concat xss) = first_some (first_some K) xss"
  by (induction xss) (auto simp: first_some_append split: option.splits)

lemma first_some_Some: "first_some Some xs = (case xs of [] \<Rightarrow> None | x # _ \<Rightarrow> Some x)"
  by (cases xs) auto

lemma first_match_mK: "first_match r s = mK r s Some"
  by (simp add: first_match_def mK_def first_some_Some)

lemma mK_Eps: "mK Eps s K = K ([], s)"
  by (simp add: mK_def split: option.splits)

lemma mK_Chr: "mK (Chr c) s K = (case s of [] \<Rightarrow> None | x # xs \<Rightarrow> if x = c then K ([], xs) else None)"
  by (simp add: mK_def split: list.splits option.splits)

lemma mK_Seq: "mK (Seq a b) s K = mK a s (\<lambda>(g1, s1). mK b s1 (\<lambda>(g2, s2). K (g1 @ g2, s2)))"
  by (simp add: mK_def first_some_concat first_some_map case_prod_unfold)

lemma mK_Alt: "mK (Alt a b) s K = (case mK a s K of Some y \<Rightarrow> Some y | None \<Rightarrow> mK b s K)"
  by (simp add: mK_def first_some_append split: option.splits)

lemma mK_Opt: "mK (Opt a) s K = (case mK a s K of Some y \<Rightarrow> Some y | None \<Rightarrow> K ([], s))"
  by (simp add: mK_def first_some_append split: option.splits)

lemma mK_Grp: "mK (Grp a) s K = mK a s (\<lambda>(g, s1). K (take (length s - length s1) s # g, s1))"
  by (simp add: mK_def first_some_map case_prod_unfold)

lemma mK_Look: "mK (Look a) s K = (if ms a s = [] then None else K ([], s))"
  by (simp add: mK_def split: list.splits option.splits)

lemma mK_Star: "mK (Star p) s K = first_some (\<lambda>r. K ([], r)) (star_rests p s)"
  by (simp add: mK_def first_some_map)

lemma mK_Plus: "mK (Plus p) s K =
   (case s of [] \<Rightarrow> None | x # xs \<Rightarrow> if p x then first_some (\<lambda>r. K ([], r)) (star_rests p xs) else None)"
  by (simp add: mK_def first_some_map split: list.splits)

lemma mK_Rep: "mK (Rep n p) s K = (if n \<le> length s \<and> list_all p (take n s) then K ([], drop n s) else None)"
  by (simp add: mK_def split: option.splits)

lemma star_rests_hd: "\<exists>rs. star_rests p s = dropWhile p s # rs"
  by (induction s) auto

lemma sr_total:
  "K (dropWhile p s) \<noteq> None \<Longrightarrow> first_some K (star_rests p s) = K (dropWhile p s)"
  using star_rests_hd [of p s] by (auto split: option.splits)

lemma sr_disj:
  "(\<And>x xs. p x \<Longrightarrow> K (x # xs) = None) \<Longrightarrow> first_some K (star_rests p s) = K (dropWhile p s)"
  by (induction s) (auto simp: first_some_append split: option.splits)

lemma sr_inv:
  "(\<And>x xs. p x \<Longrightarrow> K (x # xs) = K xs) \<Longrightarrow> first_some K (star_rests p s) = K s"
  by (induction s) (auto simp: first_some_append split: option.splits)

section \<open>The version pattern as a scan\<close>

lemma digit_is_suffix_char: "is_digit c \<Longrightarrow> is_suffix_char c"
  by (auto simp: is_digit_def is_suffix_char_def)

lemma digit_not_dot: "is_digit c \<Longrightarrow> c \<noteq> CHR ''.''"
  by (auto simp: is_digit_def)

lemma suffix_char_not_dot: "is_suffix_char c \<Longrightarrow> c \<noteq> CHR ''.''"
  by (auto simp: is_suffix_char_def)

lemma digit_not_v: "is_digit c \<Longrightarrow> c \<noteq> CHR ''v''"
  by (auto simp: is_digit_def)

lemma mK_plus_disj:
  assumes "\<And>y ys. p y \<Longrightarrow> K ([], y # ys) = None"
  shows "mK (Plus p) s K =
     (case s of [] \<Rightarrow> None | x # xs \<Rightarrow> if p x then K ([], dropWhile p xs) else None)"
proof -
  have "\<And>xs. first_some (\<lambda>r. K ([], r)) (star_rests p xs) = K ([], dropWhile p xs)"
    by (rule sr_disj) (rule assms)
  then show ?thesis
    by (simp add: mK_Plus split: list.splits)
qed

lemma mK_plus_inv:
  assumes "\<And>y ys. p y \<Longrightarrow> K ([], y # ys) = K ([], ys)"
  shows "mK (Plus p) s K =
     (case s of [] \<Rightarrow> None | x # xs \<Rightarrow> if p x then K ([], xs) else None)"
proof -
  have "\<And>xs. first_some (\<lambda>r. K ([], r)) (star_rests p xs) = K ([], xs)"
    by (rule sr_inv) (rule assms)
  then show ?thesis
    by (simp add: mK_Plus split: list.splits)
qed

lemma mK_dot: "mK (Seq (Chr CHR ''.'') R) s K =
    (case s of [] \<Rightarrow> None | c # t \<Rightarrow> if c = CHR ''.'' then mK R t K else None)"
  by (simp add: mK_Seq mK_Chr split: list.splits)

lemma mK_digits_dot:
  "mK (Seq (Plus is_digit) (Seq (Chr CHR ''.'') R)) s K =
     (case digits_dot s of None \<Rightarrow> None | Some t \<Rightarrow> mK R t K)"
proof -
  let ?K1 = "\<lambda>(g1, s1). mK (Seq (Chr CHR ''.'') R) s1 (\<lambda>(g2, s2). K (g1 @ g2, s2))"
  have 1: "mK (Seq (Plus is_digit) (Seq (Chr CHR ''.'') R)) s K = mK (Plus is_digit) s ?K1"
    by (rule mK_Seq)
  have 2: "mK (Plus is_digit) s ?K1 =
     (case s of [] \<Rightarrow> None | x # xs \<Rightarrow> if is_digit x then ?K1 ([], dropWhile is_digit xs) else None)"
    by (rule mK_plus_disj) (simp add: mK_dot digit_not_dot)
  have 3: "\<And>r. ?K1 ([], r) = (case r of [] \<Rightarrow> None | c # t \<Rightarrow> if c = CHR ''.'' then mK R t K else None)"
    by (auto simp: mK_dot split: list.splits)
  show ?thesis
    unfolding 1 2 3
  proof (cases s)
    case Nil
    then show "(case s of [] \<Rightarrow> None
       | x # xs \<Rightarrow> if is_digit x
           then case dropWhile is_digit xs of [] \<Rightarrow> None
                | c # t \<Rightarrow> if c = CHR ''.'' then mK R t K else None
           else None) = (case digits_dot s of None \<Rightarrow> None | Some t \<Rightarrow> mK R t K)"
      by (simp add: digits_dot_def)
  next
    case (Cons x xs)
    then show "(case s of [] \<Rightarrow> None
       | x # xs \<Rightarrow> if is_digit x
           then case dropWhile is_digit xs of [] \<Rightarrow> None
                | c # t \<Rightarrow> if c = CHR ''.'' then mK R t K else None
           else None) = (case digits_dot s of None \<Rightarrow> None | Some t \<Rightarrow> mK R t K)"
      by (cases "dropWhile is_digit xs") (simp_all add: digits_dot_def del: dropWhile_eq_Nil_conv)
  qed
qed

lemma mK_opt_star:
  assumes "okK K"
  shows "mK (Opt (Star is_suffix_char)) s K = K ([], dropWhile is_suffix_char s)"
proof -
  from assms consider (total) "\<forall>r. K ([], r) \<noteq> None"
    | (disj) "\<forall>x xs. is_suffix_char x \<longrightarrow> K ([], x # xs) = None"
    by (auto simp: okK_def)
  then show ?thesis
  proof cases
    case total
    then have "K ([], dropWhile is_suffix_char s) \<noteq> None"
      by blast
    then obtain y where y: "K ([], dropWhile is_suffix_char s) = Some y"
      by blast
    then have "first_some (\<lambda>r. K ([], r)) (star_rests is_suffix_char s) = Some y"
      using sr_total [of "\<lambda>r. K ([], r)" is_suffix_char s] by simp
    with y show ?thesis
      by (simp add: mK_Opt mK_Star)
  next
    case disj
    then have e: "first_some (\<lambda>r. K ([], r)) (star_rests is_suffix_char s) = K ([], dropWhile is_suffix_char s)"
      by (intro sr_disj) simp
    show ?thesis
    proof (cases s)
      case Nil
      then show ?thesis by (simp add: mK_Opt mK_Star split: option.splits)
    next
      case (Cons x xs)
      with disj e show ?thesis
        by (cases "is_suffix_char x") (auto simp: mK_Opt mK_Star split: option.splits)
    qed
  qed
qed

lemma mK_tail:
  assumes "okK K"
  shows "mK (Seq (Plus is_digit) (Opt (Star is_suffix_char))) s K =
     (case s of [] \<Rightarrow> None | x # xs \<Rightarrow> if is_digit x then K ([], dropWhile is_suffix_char xs) else None)"
proof -
  let ?K1 = "\<lambda>(g1, s1). mK (Opt (Star is_suffix_char)) s1 (\<lambda>(g2, s2). K (g1 @ g2, s2))"
  have 1: "mK (Seq (Plus is_digit) (Opt (Star is_suffix_char))) s K = mK (Plus is_digit) s ?K1"
    by (rule mK_Seq)
  have 3: "\<And>r. ?K1 ([], r) = K ([], dropWhile is_suffix_char r)"
    using mK_opt_star [OF assms] by simp
  have 2: "mK (Plus is_digit) s ?K1 =
     (case s of [] \<Rightarrow> None | x # xs \<Rightarrow> if is_digit x then ?K1 ([], xs) else None)"
    by (rule mK_plus_inv) (simp only: 3, simp add: digit_is_suffix_char)
  show ?thesis
    unfolding 1 2 3 ..
qed

lemma mK_version_core:
  assumes "okK K"
  shows "mK version_core s K = (case core_end s of None \<Rightarrow> None | Some r \<Rightarrow> K ([], r))"
  by (simp add: version_core_def mK_digits_dot mK_tail [OF assms] core_end_def
      split: option.splits list.splits)

section \<open>First matches of the two patterns of the deriver\<close>

lemma ms_lit: "ms (lit p) s = (if starts_with p s then [([], drop (length p) s)] else [])"
proof (induction p arbitrary: s)
  case Nil
  then show ?case by simp
next
  case (Cons c p)
  show ?case
    by (cases s) (simp_all add: Cons.IH)
qed

lemma ms_archive_ahead: "ms archive_ahead r = (if has_ext r then [([], r)] else [])"
proof (cases r)
  case Nil
  then show ?thesis by (simp add: archive_ahead_def has_ext_def)
next
  case (Cons c t)
  then show ?thesis
    by (simp add: archive_ahead_def has_ext_def ms_lit del: lit.simps starts_with.simps)
       (simp add: ms_lit)
qed

lemma mK_archive_ahead: "mK archive_ahead r K = (if has_ext r then K ([], r) else None)"
  by (simp add: mK_def ms_archive_ahead split: option.splits)

lemma has_ext_dot: "has_ext (x # xs) \<Longrightarrow> x = CHR ''.''"
  by (auto simp: has_ext_def)

lemma has_ext_suffix_char: "is_suffix_char x \<Longrightarrow> \<not> has_ext (x # xs)"
  using has_ext_dot suffix_char_not_dot by blast

lemma mK_version_core_v: "mK version_core (CHR ''v'' # t) K = None"
  by (simp add: version_core_def mK_digits_dot digits_dot_def is_digit_def)

lemma mK_grp_core:
  assumes "okK (\<lambda>(g, r). K (take (length s - length r) s # g, r))"
  shows "mK (Grp version_core) s K =
     (case core_end s of None \<Rightarrow> None | Some r \<Rightarrow> K ([take (length s - length r) s], r))"
  by (simp add: mK_Grp mK_version_core [OF assms] split: option.splits)

lemma mK_opt_v:
  assumes "\<And>t (K' :: string list \<times> string \<Rightarrow> 'b option). mK X (CHR ''v'' # t) K' = None"
  shows "mK (Seq (Grp (Opt (Chr CHR ''v''))) X) s (K :: string list \<times> string \<Rightarrow> 'b option) =
     (case strip_v s of (v, s0) \<Rightarrow> mK X s0 (\<lambda>(g2, s2). K (v # g2, s2)))"
proof (cases s)
  case Nil
  then show ?thesis
    by (simp add: mK_Seq mK_Grp mK_Opt mK_Chr strip_v_def)
next
  case (Cons c t)
  show ?thesis
  proof (cases "c = CHR ''v''")
    case True
    with Cons show ?thesis
      by (simp add: mK_Seq mK_Grp mK_Opt mK_Chr strip_v_def assms split: option.splits)
  next
    case False
    with Cons show ?thesis
      by (simp add: mK_Seq mK_Grp mK_Opt mK_Chr strip_v_def)
  qed
qed

lemma first_match_fallback:
  "first_match fallback_pattern s =
     (case strip_v s of (v, s0) \<Rightarrow>
        (case core_end s0 of
           None \<Rightarrow> None
         | Some r \<Rightarrow> Some ([v, take (length s0 - length r) s0], r)))"
proof -
  have f: "\<And>t (K' :: string list \<times> string \<Rightarrow> (string list \<times> string) option).
      mK (Grp version_core) (CHR ''v'' # t) K' = None"
    by (simp add: mK_Grp mK_version_core_v)
  have g: "\<And>v s0. mK (Grp version_core) s0 (\<lambda>(g2, s2). Some (v # g2, s2)) =
      (case core_end s0 of None \<Rightarrow> None | Some r \<Rightarrow> Some ([v, take (length s0 - length r) s0], r))"
    by (subst mK_grp_core) (simp_all add: okK_def split: option.splits)
  show ?thesis
    by (simp add: first_match_mK fallback_pattern_def mK_opt_v [OF f] g)
qed

lemma first_match_anchored:
  "first_match anchored_pattern s =
     (case strip_v s of (v, s0) \<Rightarrow>
        (case core_end s0 of
           None \<Rightarrow> None
         | Some r \<Rightarrow> if has_ext r then Some ([v, take (length s0 - length r) s0], r) else None))"
proof -
  have f: "\<And>t (K' :: string list \<times> string \<Rightarrow> (string list \<times> string) option).
      mK (Seq (Grp version_core) archive_ahead) (CHR ''v'' # t) K' = None"
    by (simp add: mK_Seq mK_Grp mK_version_core_v)
  have g: "\<And>v s0. mK (Seq (Grp version_core) archive_ahead) s0 (\<lambda>(g2, s2). Some (v # g2, s2)) =
      (case core_end s0 of None \<Rightarrow> None
       | Some r \<Rightarrow> if has_ext r then Some ([v, take (length s0 - length r) s0], r) else None)"
    by (subst mK_Seq, subst mK_grp_core)
       (simp_all add: okK_def mK_archive_ahead has_ext_suffix_char split: option.splits)
  show ?thesis
    by (simp add: first_match_mK anchored_pattern_def mK_opt_v [OF f] g)
qed

section \<open>The leftmost match\<close>

lemma search_from_first_match:
  "search_from r pre s =
     (case first_match r s of
        Some (g, rest) \<Rightarrow> Some (pre, g, rest)
      | None \<Rightarrow> (case s of [] \<Rightarrow> None | x # xs \<Rightarrow> search_from r (pre @ [x]) xs))"
  by (cases s) (auto simp: first_match_def split: list.splits)

lemma search_from_None:
  "search_from r pre s = None \<longleftrightarrow> (\<forall>a t. s = a @ t \<longrightarrow> first_match r t = None)"
proof (induction s arbitrary: pre)
  case Nil
  then show ?case
    by (subst search_from_first_match) (auto split: option.splits)
next
  case (Cons x xs)
  show ?case
  proof (cases "first_match r (x # xs)")
    case None
    have "(\<forall>a t. x # xs = a @ t \<longrightarrow> first_match r t = None) \<longleftrightarrow>
          (\<forall>a t. xs = a @ t \<longrightarrow> first_match r t = None)"
      using None by (auto simp: Cons_eq_append_conv)
    with None Cons.IH [of "pre @ [x]"] show ?thesis
      by (subst search_from_first_match) simp
  next
    case (Some m)
    then have "search_from r pre (x # xs) \<noteq> None"
      by (subst search_from_first_match) (auto split: prod.splits)
    moreover have "\<not> (\<forall>a t. x # xs = a @ t \<longrightarrow> first_match r t = None)"
      using Some by (auto intro: exI [of _ "[]"])
    ultimately show ?thesis by blast
  qed
qed

lemma search_from_Some:
  "search_from r pre s = Some (p, g, rest) \<longleftrightarrow>
     (\<exists>a t. s = a @ t \<and> p = pre @ a \<and> first_match r t = Some (g, rest) \<and>
        (\<forall>a1 a2. a = a1 @ a2 \<and> a2 \<noteq> [] \<longrightarrow> first_match r (a2 @ t) = None))"
proof (induction s arbitrary: pre)
  case Nil
  then show ?case
    by (subst search_from_first_match) (auto split: option.splits)
next
  case (Cons x xs)
  show ?case
  proof (cases "first_match r (x # xs)")
    case None
    have "(\<exists>a t. x # xs = a @ t \<and> p = pre @ a \<and> first_match r t = Some (g, rest) \<and>
        (\<forall>a1 a2. a = a1 @ a2 \<and> a2 \<noteq> [] \<longrightarrow> first_match r (a2 @ t) = None)) \<longleftrightarrow>
      (\<exists>a t. xs = a @ t \<and> p = (pre @ [x]) @ a \<and> first_match r t = Some (g, rest) \<and>
        (\<forall>a1 a2. a = a1 @ a2 \<and> a2 \<noteq> [] \<longrightarrow> first_match r (a2 @ t) = None))"
      (is "?L \<longleftrightarrow> ?R")
    proof
      assume ?L
      then obtain a t where a: "x # xs = a @ t" "p = pre @ a" "first_match r t = Some (g, rest)"
        "\<forall>a1 a2. a = a1 @ a2 \<and> a2 \<noteq> [] \<longrightarrow> first_match r (a2 @ t) = None"
        by blast
      from a(1,3) None obtain a' where a': "a = x # a'" "xs = a' @ t"
        by (cases a) auto
      have "\<forall>a1 a2. a' = a1 @ a2 \<and> a2 \<noteq> [] \<longrightarrow> first_match r (a2 @ t) = None"
      proof (intro allI impI)
        fix a1 a2 assume "a' = a1 @ a2 \<and> a2 \<noteq> []"
        then have "a = (x # a1) @ a2 \<and> a2 \<noteq> []" using a' by simp
        with a(4) show "first_match r (a2 @ t) = None" by blast
      qed
      with a a' show ?R by auto
    next
      assume ?R
      then obtain a t where a: "xs = a @ t" "p = (pre @ [x]) @ a" "first_match r t = Some (g, rest)"
        "\<forall>a1 a2. a = a1 @ a2 \<and> a2 \<noteq> [] \<longrightarrow> first_match r (a2 @ t) = None"
        by blast
      have "\<forall>a1 a2. x # a = a1 @ a2 \<and> a2 \<noteq> [] \<longrightarrow> first_match r (a2 @ t) = None"
      proof (intro allI impI)
        fix a1 a2 assume h: "x # a = a1 @ a2 \<and> a2 \<noteq> []"
        show "first_match r (a2 @ t) = None"
        proof (cases a1)
          case Nil
          with h a(1) None show ?thesis by auto
        next
          case (Cons y ys)
          with h have "a = ys @ a2 \<and> a2 \<noteq> []" by simp
          with a(4) show ?thesis by blast
        qed
      qed
      with a show ?L
        by (intro exI [of _ "x # a"] exI [of _ t]) simp
    qed
    with None Cons.IH [of "pre @ [x]"] show ?thesis
      by (subst search_from_first_match) simp
  next
    case (Some m)
    obtain g' rest' where m: "m = (g', rest')" by (cases m)
    have l: "search_from r pre (x # xs) = Some (pre, g', rest')"
      using Some m by (subst search_from_first_match) simp
    have "(\<exists>a t. x # xs = a @ t \<and> p = pre @ a \<and> first_match r t = Some (g, rest) \<and>
        (\<forall>a1 a2. a = a1 @ a2 \<and> a2 \<noteq> [] \<longrightarrow> first_match r (a2 @ t) = None)) \<longleftrightarrow>
        (p = pre \<and> g = g' \<and> rest = rest')" (is "?L \<longleftrightarrow> ?R")
    proof
      assume ?L
      then obtain a t where a: "x # xs = a @ t" "p = pre @ a" "first_match r t = Some (g, rest)"
        "\<forall>a1 a2. a = a1 @ a2 \<and> a2 \<noteq> [] \<longrightarrow> first_match r (a2 @ t) = None"
        by blast
      have "a = []"
      proof (rule ccontr)
        assume "a \<noteq> []"
        with a(4) have "first_match r (a @ t) = None" by blast
        with a(1) Some show False by simp
      qed
      with a Some m show ?R by simp
    next
      assume ?R
      with Some m show ?L
        by (intro exI [of _ "[]"] exI [of _ "x # xs"]) simp
    qed
    with l show ?thesis by auto
  qed
qed

section \<open>The scan and the shape\<close>

lemma digits_Cons: "digits a \<Longrightarrow> \<exists>x a'. a = x # a' \<and> is_digit x \<and> list_all is_digit a'"
  by (cases a) (auto simp: digits_def)

lemma dropWhile_all: "list_all p a \<Longrightarrow> dropWhile p (a @ r) = dropWhile p r"
  by (induction a) auto

lemma takeWhile_all: "list_all p a \<Longrightarrow> takeWhile p (a @ r) = a @ takeWhile p r"
  by (induction a) auto

lemma list_all_takeWhile: "list_all p (takeWhile p xs)"
  by (induction xs) auto

lemma stops_dropWhile: "stops (dropWhile is_suffix_char r)"
  by (induction r) (auto simp: stops_def)

lemma dropWhile_stops: "stops r \<Longrightarrow> dropWhile is_suffix_char r = r"
  by (cases r) (auto simp: stops_def)

lemma digits_dot_iff: "digits_dot s = Some t \<longleftrightarrow> (\<exists>a. digits a \<and> s = a @ ''.'' @ t)"
proof
  assume h: "digits_dot s = Some t"
  then obtain x xs where s: "s = x # xs" and x: "is_digit x" and d: "dropWhile is_digit xs = CHR ''.'' # t"
    by (auto simp: digits_dot_def split: list.splits if_splits)
  have "xs = takeWhile is_digit xs @ dropWhile is_digit xs" by simp
  with d have "s = (x # takeWhile is_digit xs) @ ''.'' @ t"
    using s by simp
  moreover have "digits (x # takeWhile is_digit xs)"
    using x by (simp add: digits_def list_all_takeWhile)
  ultimately show "\<exists>a. digits a \<and> s = a @ ''.'' @ t" by blast
next
  assume "\<exists>a. digits a \<and> s = a @ ''.'' @ t"
  then obtain a where a: "digits a" and s: "s = a @ ''.'' @ t" by blast
  from digits_Cons [OF a] obtain x a' where a': "a = x # a'" "is_digit x" "list_all is_digit a'"
    by blast
  have "dropWhile is_digit (a' @ CHR ''.'' # t) = CHR ''.'' # t"
    using a'(3) by (simp add: dropWhile_all is_digit_def)
  with a' s show "digits_dot s = Some t"
    by (simp add: digits_dot_def)
qed

lemma core_end_iff:
  "core_end s = Some r \<longleftrightarrow> (\<exists>ver. version3 ver \<and> s = ver @ r \<and> stops r)"
proof
  assume h: "core_end s = Some r"
  then obtain s1 s2 x xs where 1: "digits_dot s = Some s1" and 2: "digits_dot s1 = Some s2"
    and 3: "s2 = x # xs" "is_digit x" "r = dropWhile is_suffix_char xs"
    by (auto simp: core_end_def split: option.splits list.splits if_splits)
  from 1 obtain a where a: "digits a" "s = a @ ''.'' @ s1" by (auto simp: digits_dot_iff)
  from 2 obtain b where b: "digits b" "s1 = b @ ''.'' @ s2" by (auto simp: digits_dot_iff)
  have xs: "xs = takeWhile is_suffix_char xs @ r" using 3 by simp
  let ?ver = "a @ ''.'' @ b @ ''.'' @ [x] @ takeWhile is_suffix_char xs"
  have "version3 ?ver"
    unfolding version3_def
    using a(1) b(1) 3(2)
    by (intro exI [of _ a] exI [of _ b] exI [of _ "[x]"] exI [of _ "takeWhile is_suffix_char xs"])
       (simp add: digits_def list_all_takeWhile)
  moreover have "s = ?ver @ r"
    using a(2) b(2) 3(1) xs by simp
  moreover have "stops r" using 3(3) by (simp add: stops_dropWhile)
  ultimately show "\<exists>ver. version3 ver \<and> s = ver @ r \<and> stops r" by blast
next
  assume "\<exists>ver. version3 ver \<and> s = ver @ r \<and> stops r"
  then obtain a b c t where v: "s = (a @ ''.'' @ b @ ''.'' @ c @ t) @ r" "digits a" "digits b" "digits c"
    "list_all is_suffix_char t" and st: "stops r"
    by (auto simp: version3_def)
  from digits_Cons [OF v(4)] obtain x c' where c: "c = x # c'" "is_digit x" "list_all is_digit c'"
    by blast
  have 1: "digits_dot s = Some (b @ ''.'' @ c @ t @ r)"
    using v(1,2) by (auto simp: digits_dot_iff)
  have 2: "digits_dot (b @ ''.'' @ c @ t @ r) = Some (c @ t @ r)"
    using v(3) by (auto simp: digits_dot_iff)
  have "list_all is_suffix_char c'"
    using c(3) by (auto simp: list_all_iff digit_is_suffix_char)
  then have "dropWhile is_suffix_char (c' @ t @ r) = r"
    using v(5) st by (simp add: dropWhile_all dropWhile_stops)
  with 1 2 c show "core_end s = Some r"
    by (simp add: core_end_def)
qed

lemma version3_extend:
  assumes "version3 ver" and "list_all is_suffix_char u"
  shows "version3 (ver @ u)"
proof -
  from assms(1) obtain a b c t where v: "ver = a @ ''.'' @ b @ ''.'' @ c @ t" "digits a" "digits b" "digits c"
    "list_all is_suffix_char t"
    by (auto simp: version3_def)
  show ?thesis
    unfolding version3_def
    using v assms(2)
    by (intro exI [of _ a] exI [of _ b] exI [of _ c] exI [of _ "t @ u"]) simp
qed

lemma core_end_None_iff:
  "core_end s = None \<longleftrightarrow> \<not> (\<exists>ver r. version3 ver \<and> s = ver @ r)"
proof
  assume n: "core_end s = None"
  show "\<not> (\<exists>ver r. version3 ver \<and> s = ver @ r)"
  proof
    assume "\<exists>ver r. version3 ver \<and> s = ver @ r"
    then obtain ver r where v: "version3 ver" "s = ver @ r" by blast
    have "version3 (ver @ takeWhile is_suffix_char r)"
      using v(1) by (rule version3_extend) (rule list_all_takeWhile)
    moreover have "s = (ver @ takeWhile is_suffix_char r) @ dropWhile is_suffix_char r"
      using v(2) by simp
    ultimately have "core_end s = Some (dropWhile is_suffix_char r)"
      using stops_dropWhile core_end_iff by blast
    with n show False by simp
  qed
next
  assume "\<not> (\<exists>ver r. version3 ver \<and> s = ver @ r)"
  then show "core_end s = None"
    using core_end_iff by (cases "core_end s") blast+
qed

lemma version3_starts_with_digit: "version3 ver \<Longrightarrow> \<exists>x xs. ver = x # xs \<and> is_digit x"
  by (auto simp: version3_def dest!: digits_Cons)

lemma strip_v_cases: "strip_v s = (v, s0) \<Longrightarrow> s = v @ s0 \<and> (v = [] \<or> v = ''v'')"
  by (auto simp: strip_v_def split: list.splits if_splits)

lemma strip_v_version: "version3 ver \<Longrightarrow> strip_v (ver @ r) = ([], ver @ r)"
  by (auto simp: strip_v_def digit_not_v dest!: version3_starts_with_digit)

lemma strip_v_v: "strip_v (''v'' @ s0) = (''v'', s0)"
  by (simp add: strip_v_def)

lemma has_ext_stops: "has_ext r \<Longrightarrow> stops r"
  using has_ext_suffix_char by (cases r) (auto simp: stops_def)

lemma first_match_anchored_iff:
  "first_match anchored_pattern s = Some (g, rest) \<longleftrightarrow>
     (\<exists>v ver. g = [v, ver] \<and> s = v @ ver @ rest \<and> (v = [] \<or> v = ''v'') \<and> version3 ver \<and> has_ext rest)"
proof
  assume h: "first_match anchored_pattern s = Some (g, rest)"
  obtain v s0 where sv: "strip_v s = (v, s0)" by (cases "strip_v s")
  from h sv have ce: "core_end s0 = Some rest" and g: "g = [v, take (length s0 - length rest) s0]"
    and e: "has_ext rest"
    by (auto simp: first_match_anchored split: option.splits if_splits)
  from ce obtain ver where ver: "version3 ver" "s0 = ver @ rest"
    by (auto simp: core_end_iff)
  from strip_v_cases [OF sv] ver g e
  show "\<exists>v ver. g = [v, ver] \<and> s = v @ ver @ rest \<and> (v = [] \<or> v = ''v'') \<and> version3 ver \<and> has_ext rest"
    by auto
next
  assume "\<exists>v ver. g = [v, ver] \<and> s = v @ ver @ rest \<and> (v = [] \<or> v = ''v'') \<and> version3 ver \<and> has_ext rest"
  then obtain v ver where h: "g = [v, ver]" "s = v @ ver @ rest" "v = [] \<or> v = ''v''" "version3 ver"
    "has_ext rest" by blast
  have sv: "strip_v s = (v, ver @ rest)"
    using h(2,3,4) strip_v_version [of ver rest] strip_v_v [of "ver @ rest"] by auto
  have ce: "core_end (ver @ rest) = Some rest"
    using h(4,5) has_ext_stops core_end_iff by blast
  from sv ce h show "first_match anchored_pattern s = Some (g, rest)"
    by (simp add: first_match_anchored)
qed

lemma first_match_fallback_iff:
  "first_match fallback_pattern s = Some (g, rest) \<longleftrightarrow>
     (\<exists>v ver. g = [v, ver] \<and> s = v @ ver @ rest \<and> (v = [] \<or> v = ''v'') \<and> version3 ver \<and> stops rest)"
proof
  assume h: "first_match fallback_pattern s = Some (g, rest)"
  obtain v s0 where sv: "strip_v s = (v, s0)" by (cases "strip_v s")
  from h sv have ce: "core_end s0 = Some rest" and g: "g = [v, take (length s0 - length rest) s0]"
    by (auto simp: first_match_fallback split: option.splits if_splits)
  from ce obtain ver where ver: "version3 ver" "s0 = ver @ rest" "stops rest"
    by (auto simp: core_end_iff)
  from strip_v_cases [OF sv] ver g
  show "\<exists>v ver. g = [v, ver] \<and> s = v @ ver @ rest \<and> (v = [] \<or> v = ''v'') \<and> version3 ver \<and> stops rest"
    by auto
next
  assume "\<exists>v ver. g = [v, ver] \<and> s = v @ ver @ rest \<and> (v = [] \<or> v = ''v'') \<and> version3 ver \<and> stops rest"
  then obtain v ver where h: "g = [v, ver]" "s = v @ ver @ rest" "v = [] \<or> v = ''v''" "version3 ver"
    "stops rest" by blast
  have sv: "strip_v s = (v, ver @ rest)"
    using h(2,3,4) strip_v_version [of ver rest] strip_v_v [of "ver @ rest"] by auto
  have ce: "core_end (ver @ rest) = Some rest"
    using h(4,5) core_end_iff by blast
  from sv ce h show "first_match fallback_pattern s = Some (g, rest)"
    by (simp add: first_match_fallback)
qed

lemma first_match_fallback_None_iff:
  "first_match fallback_pattern s = None \<longleftrightarrow>
     \<not> (\<exists>v ver r. s = v @ ver @ r \<and> (v = [] \<or> v = ''v'') \<and> version3 ver)"
proof
  assume n: "first_match fallback_pattern s = None"
  show "\<not> (\<exists>v ver r. s = v @ ver @ r \<and> (v = [] \<or> v = ''v'') \<and> version3 ver)"
  proof
    assume "\<exists>v ver r. s = v @ ver @ r \<and> (v = [] \<or> v = ''v'') \<and> version3 ver"
    then obtain v ver r where h: "s = v @ ver @ r" "v = [] \<or> v = ''v''" "version3 ver" by blast
    have sv: "strip_v s = (v, ver @ r)"
      using h strip_v_version [of ver r] strip_v_v [of "ver @ r"] by auto
    have "core_end (ver @ r) \<noteq> None"
      using h(3) core_end_None_iff by blast
    with sv n show False
      by (auto simp: first_match_fallback split: option.splits)
  qed
next
  assume n: "\<not> (\<exists>v ver r. s = v @ ver @ r \<and> (v = [] \<or> v = ''v'') \<and> version3 ver)"
  show "first_match fallback_pattern s = None"
  proof (cases "first_match fallback_pattern s")
    case None
    then show ?thesis .
  next
    case (Some m)
    obtain g rest where "m = (g, rest)" by (cases m)
    with Some first_match_fallback_iff [of s g rest] n show ?thesis by blast
  qed
qed

section \<open>The searches of the deriver\<close>

lemma re_search_Some:
  "re_search r s = Some (p, g, rest) \<longleftrightarrow>
     (\<exists>t. s = p @ t \<and> first_match r t = Some (g, rest) \<and>
        (\<forall>n < length p. first_match r (drop n s) = None))"
proof
  assume "re_search r s = Some (p, g, rest)"
  then obtain a t where h: "s = a @ t" "p = a" "first_match r t = Some (g, rest)"
    "\<forall>a1 a2. a = a1 @ a2 \<and> a2 \<noteq> [] \<longrightarrow> first_match r (a2 @ t) = None"
    unfolding re_search_def search_from_Some by auto
  have "\<forall>n < length p. first_match r (drop n s) = None"
  proof (intro allI impI)
    fix n assume n: "n < length p"
    then have "a = take n a @ drop n a \<and> drop n a \<noteq> []" using h(2) by simp
    with h(4) have "first_match r (drop n a @ t) = None" by blast
    with n h(1,2) show "first_match r (drop n s) = None" by simp
  qed
  with h show "\<exists>t. s = p @ t \<and> first_match r t = Some (g, rest) \<and>
        (\<forall>n < length p. first_match r (drop n s) = None)" by blast
next
  assume "\<exists>t. s = p @ t \<and> first_match r t = Some (g, rest) \<and>
        (\<forall>n < length p. first_match r (drop n s) = None)"
  then obtain t where h: "s = p @ t" "first_match r t = Some (g, rest)"
    "\<forall>n < length p. first_match r (drop n s) = None" by blast
  have "\<forall>a1 a2. p = a1 @ a2 \<and> a2 \<noteq> [] \<longrightarrow> first_match r (a2 @ t) = None"
  proof (intro allI impI)
    fix a1 a2 assume a: "p = a1 @ a2 \<and> a2 \<noteq> []"
    then have "length a1 < length p" by simp
    with h(3) have "first_match r (drop (length a1) s) = None" by blast
    with a h(1) show "first_match r (a2 @ t) = None" by simp
  qed
  with h show "re_search r s = Some (p, g, rest)"
    unfolding re_search_def search_from_Some by auto
qed

lemma re_search_None:
  "re_search r s = None \<longleftrightarrow> (\<forall>a t. s = a @ t \<longrightarrow> first_match r t = None)"
  unfolding re_search_def by (rule search_from_None)

lemma first_match_anchored_shaped:
  "first_match anchored_pattern t = Some (g, rest) \<longleftrightarrow> (\<exists>v ver. g = [v, ver] \<and> shaped_at True t v ver rest)"
  by (auto simp: first_match_anchored_iff shaped_at_def)

lemma first_match_fallback_shaped:
  "first_match fallback_pattern t = Some (g, rest) \<longleftrightarrow> (\<exists>v ver. g = [v, ver] \<and> shaped_at False t v ver rest)"
  by (auto simp: first_match_fallback_iff shaped_at_def)

lemma first_match_anchored_none:
  "first_match anchored_pattern t = None \<longleftrightarrow> \<not> (\<exists>v ver suf. shaped_at True t v ver suf)"
proof (cases "first_match anchored_pattern t")
  case None
  have "\<not> (\<exists>v ver suf. shaped_at True t v ver suf)"
  proof
    assume "\<exists>v ver suf. shaped_at True t v ver suf"
    then obtain v ver suf where "shaped_at True t v ver suf" by blast
    then have "first_match anchored_pattern t = Some ([v, ver], suf)"
      by (simp add: first_match_anchored_shaped)
    with None show False by simp
  qed
  with None show ?thesis by simp
next
  case (Some m)
  obtain g rest where "m = (g, rest)" by (cases m)
  with Some first_match_anchored_shaped [of t g rest] show ?thesis by auto
qed

lemma first_match_fallback_none:
  "first_match fallback_pattern t = None \<longleftrightarrow> \<not> (\<exists>v ver suf. shaped_at False t v ver suf)"
proof (cases "first_match fallback_pattern t")
  case None
  have "\<not> (\<exists>v ver suf. shaped_at False t v ver suf)"
  proof
    assume "\<exists>v ver suf. shaped_at False t v ver suf"
    then obtain v ver suf where "shaped_at False t v ver suf" by blast
    then have "first_match fallback_pattern t = Some ([v, ver], suf)"
      by (simp add: first_match_fallback_shaped)
    with None show False by simp
  qed
  with None show ?thesis by simp
next
  case (Some m)
  obtain g rest where "m = (g, rest)" by (cases m)
  with Some first_match_fallback_shaped [of t g rest] show ?thesis by auto
qed

lemma shaped_search:
  assumes fm: "\<And>t g rest. first_match r t = Some (g, rest) \<longleftrightarrow>
      (\<exists>v ver. g = [v, ver] \<and> shaped_at b t v ver rest)"
    and fn: "\<And>t. first_match r t = None \<longleftrightarrow> \<not> (\<exists>v ver suf. shaped_at b t v ver suf)"
  shows "re_search r url = Some (p, g, rest) \<longleftrightarrow>
     (\<exists>v ver. g = [v, ver] \<and> leftmost b url p v ver rest)"
proof
  assume "re_search r url = Some (p, g, rest)"
  then obtain t where h: "url = p @ t" "first_match r t = Some (g, rest)"
    "\<forall>n < length p. first_match r (drop n url) = None"
    unfolding re_search_Some by blast
  from h(2) obtain v ver where g: "g = [v, ver]" and sh: "shaped_at b t v ver rest"
    unfolding fm by blast
  from sh have t: "t = v @ ver @ rest" by (simp add: shaped_at_def)
  have "\<forall>n < length p. \<not> (\<exists>v' ver' suf'. shaped_at b (drop n url) v' ver' suf')"
    using h(3) unfolding fn .
  with h(1) sh t have "leftmost b url p v ver rest"
    unfolding leftmost_def by simp
  with g show "\<exists>v ver. g = [v, ver] \<and> leftmost b url p v ver rest" by blast
next
  assume "\<exists>v ver. g = [v, ver] \<and> leftmost b url p v ver rest"
  then obtain v ver where g: "g = [v, ver]" and l: "leftmost b url p v ver rest" by blast
  from l have u: "url = p @ v @ ver @ rest" and sh: "shaped_at b (v @ ver @ rest) v ver rest"
    and n: "\<forall>n < length p. \<not> (\<exists>v' ver' suf'. shaped_at b (drop n url) v' ver' suf')"
    unfolding leftmost_def by blast+
  from sh g have "first_match r (v @ ver @ rest) = Some (g, rest)"
    unfolding fm by blast
  moreover from n have "\<forall>n < length p. first_match r (drop n url) = None"
    unfolding fn .
  ultimately show "re_search r url = Some (p, g, rest)"
    unfolding re_search_Some using u by blast
qed

lemma anchored_search:
  "re_search anchored_pattern url = Some (p, g, rest) \<longleftrightarrow>
     (\<exists>v ver. g = [v, ver] \<and> leftmost True url p v ver rest)"
  by (rule shaped_search) (rule first_match_anchored_shaped first_match_anchored_none)+

lemma fallback_search:
  "re_search fallback_pattern url = Some (p, g, rest) \<longleftrightarrow>
     (\<exists>v ver. g = [v, ver] \<and> leftmost False url p v ver rest)"
  by (rule shaped_search) (rule first_match_fallback_shaped first_match_fallback_none)+

lemma anchored_search_none:
  "re_search anchored_pattern url = None \<longleftrightarrow>
     \<not> (\<exists>p m s. url = p @ m @ s \<and> version3 m \<and> has_ext s)"
proof
  assume n: "re_search anchored_pattern url = None"
  show "\<not> (\<exists>p m s. url = p @ m @ s \<and> version3 m \<and> has_ext s)"
  proof
    assume "\<exists>p m s. url = p @ m @ s \<and> version3 m \<and> has_ext s"
    then obtain p m s where h: "url = p @ m @ s" "version3 m" "has_ext s" by blast
    then have "first_match anchored_pattern (m @ s) = Some ([[], m], s)"
      by (simp add: first_match_anchored_iff)
    with n h(1) show False
      unfolding re_search_None by fastforce
  qed
next
  assume n: "\<not> (\<exists>p m s. url = p @ m @ s \<and> version3 m \<and> has_ext s)"
  show "re_search anchored_pattern url = None"
    unfolding re_search_None
  proof (intro allI impI)
    fix a t assume u: "url = a @ t"
    show "first_match anchored_pattern t = None"
    proof (rule ccontr)
      assume "first_match anchored_pattern t \<noteq> None"
      then obtain g rest where "first_match anchored_pattern t = Some (g, rest)" by auto
      then obtain v ver where "t = v @ ver @ rest" "version3 ver" "has_ext rest"
        by (auto simp: first_match_anchored_iff)
      with u have "url = (a @ v) @ ver @ rest \<and> version3 ver \<and> has_ext rest" by simp
      with n show False by blast
    qed
  qed
qed

lemma fallback_search_none:
  "re_search fallback_pattern url = None \<longleftrightarrow> \<not> (\<exists>p m s. url = p @ m @ s \<and> version3 m)"
proof
  assume n: "re_search fallback_pattern url = None"
  show "\<not> (\<exists>p m s. url = p @ m @ s \<and> version3 m)"
  proof
    assume "\<exists>p m s. url = p @ m @ s \<and> version3 m"
    then obtain p m s where h: "url = p @ m @ s" "version3 m" by blast
    then have "\<exists>v ver r. m @ s = v @ ver @ r \<and> (v = [] \<or> v = ''v'') \<and> version3 ver"
      by (intro exI [of _ "[]"] exI [of _ m] exI [of _ s]) simp
    then have "first_match fallback_pattern (m @ s) \<noteq> None"
      by (simp add: first_match_fallback_None_iff)
    with n h(1) show False
      unfolding re_search_None by fastforce
  qed
next
  assume n: "\<not> (\<exists>p m s. url = p @ m @ s \<and> version3 m)"
  show "re_search fallback_pattern url = None"
    unfolding re_search_None
  proof (intro allI impI)
    fix a t assume u: "url = a @ t"
    show "first_match fallback_pattern t = None"
    proof (rule ccontr)
      assume "first_match fallback_pattern t \<noteq> None"
      then obtain g rest where "first_match fallback_pattern t = Some (g, rest)" by auto
      then obtain v ver where "t = v @ ver @ rest" "version3 ver"
        by (auto simp: first_match_fallback_iff)
      with u have "url = (a @ v) @ ver @ rest \<and> version3 ver" by simp
      with n show False by blast
    qed
  qed
qed

lemma leading_v: "v = [] \<or> v = ''v'' \<Longrightarrow> (if v \<noteq> [] then ''v'' else []) = v"
  by auto

lemma leftmost_v: "leftmost b url p v ver s \<Longrightarrow> v = [] \<or> v = ''v''"
  by (simp add: leftmost_def shaped_at_def)

lemma derive_url_anchored:
  assumes "leftmost True url p v ver s"
  shows "derive_url url nv = Inr (p @ v @ nv @ s)"
proof -
  from assms have "re_search anchored_pattern url = Some (p, [v, ver], s)"
    by (simp add: anchored_search)
  with leftmost_v [OF assms] show ?thesis
    by (auto simp: derive_url_def)
qed

lemma derive_url_fallback:
  assumes "\<not> (\<exists>p m s. url = p @ m @ s \<and> version3 m \<and> has_ext s)"
    and "leftmost False url p v ver s"
  shows "derive_url url nv = Inr (p @ v @ nv @ s)"
proof -
  from assms(1) have "re_search anchored_pattern url = None"
    by (simp add: anchored_search_none)
  moreover from assms(2) have "re_search fallback_pattern url = Some (p, [v, ver], s)"
    by (simp add: fallback_search)
  ultimately show ?thesis
    using leftmost_v [OF assms(2)] by (auto simp: derive_url_def)
qed

lemma derive_url_none:
  assumes "\<not> (\<exists>p m s. url = p @ m @ s \<and> version3 m)"
  shows "derive_url url nv = Inl (UnrecognisablePattern url)"
proof -
  from assms have "re_search fallback_pattern url = None"
    by (simp add: fallback_search_none)
  moreover from assms have "re_search anchored_pattern url = None"
    unfolding anchored_search_none by blast
  ultimately show ?thesis
    by (simp add: derive_url_def)
qed

lemma derive_url_cases:
  obtains (a) p v ver s where "leftmost True url p v ver s"
  | (f) p v ver s where "\<not> (\<exists>p m s. url = p @ m @ s \<and> version3 m \<and> has_ext s)"
      "leftmost False url p v ver s"
  | (n) "\<not> (\<exists>p m s. url = p @ m @ s \<and> version3 m)"
proof (cases "re_search anchored_pattern url")
  case (Some m)
  obtain p g s where "m = (p, g, s)" by (cases m)
  with Some have "re_search anchored_pattern url = Some (p, g, s)" by simp
  then obtain v ver where "leftmost True url p v ver s"
    unfolding anchored_search by blast
  then show ?thesis by (rule a)
next
  case None
  then have an: "\<not> (\<exists>p m s. url = p @ m @ s \<and> version3 m \<and> has_ext s)"
    unfolding anchored_search_none .
  show ?thesis
  proof (cases "re_search fallback_pattern url")
    case None
    then have "\<not> (\<exists>p m s. url = p @ m @ s \<and> version3 m)"
      unfolding fallback_search_none .
    then show ?thesis by (rule n)
  next
    case (Some m)
    obtain p g s where "m = (p, g, s)" by (cases m)
    with Some have "re_search fallback_pattern url = Some (p, g, s)" by simp
    then obtain v ver where "leftmost False url p v ver s"
      unfolding fallback_search by blast
    with an show ?thesis by (rule f)
  qed
qed

lemma leftmost_version:
  "leftmost b url pre v ver suf \<Longrightarrow> \<exists>p m s. url = p @ m @ s \<and> version3 m"
  unfolding leftmost_def shaped_at_def
  by (intro exI [of _ "pre @ v"] exI [of _ ver] exI [of _ suf]) simp

lemma leftmost_anchored_version:
  "leftmost True url pre v ver suf \<Longrightarrow> \<exists>p m s. url = p @ m @ s \<and> version3 m \<and> has_ext s"
  unfolding leftmost_def shaped_at_def
  by (intro exI [of _ "pre @ v"] exI [of _ ver] exI [of _ suf]) simp

section \<open>The URL deriver: what it finds, and when it fails\<close>

text \<open>
  Claim C1, as the specification words it: the deriver searches the URL for a
  version-shaped substring of one or more dot-separated numeric groups (after an optional
  \<open>v\<close>, before an optional suffix), preferring a match immediately followed by
  \<^verbatim>\<open>.tar.gz\<close> or \<^verbatim>\<open>.zip\<close>, falls back to the first such substring anywhere, and
  fails if and only if there is none; on a match the result is the prefix, the \<open>v\<close> if the
  match had one, the new version and the suffix.

  The patterns of \<^verbatim>\<open>derive_tarball_url\<close> ask for three numeric groups. The statement
  that holds: the result is \<open>pre @ v @ nv @ suf\<close> exactly when \<open>pre\<close>, \<open>v\<close>, \<open>ver\<close>, \<open>suf\<close>
  is the leftmost occurrence of a three-group version followed by an archive extension,
  or there is no such occurrence anywhere and it is the leftmost occurrence of a
  three-group version with its longest suffix run; and the deriver fails, with
  \<open>UnrecognisablePattern\<close>, exactly when no substring of the URL is a three-group
  version.
\<close>

theorem derive_url_three_groups:
  "(derive_url url nv = Inr res \<longleftrightarrow>
      (\<exists>pre v ver suf. res = pre @ v @ nv @ suf \<and>
         (leftmost True url pre v ver suf \<or>
          (\<not> (\<exists>p m s. url = p @ m @ s \<and> version3 m \<and> has_ext s) \<and>
           leftmost False url pre v ver suf)))) \<and>
   (derive_url url nv = Inl e \<longleftrightarrow>
      e = UnrecognisablePattern url \<and> \<not> (\<exists>p m s. url = p @ m @ s \<and> version3 m))"
  (is "(?L1 \<longleftrightarrow> ?R1) \<and> (?L2 \<longleftrightarrow> ?R2)")
proof (rule conjI)
  show "?L1 \<longleftrightarrow> ?R1"
  proof (rule iffI)
    assume ?R1
    then obtain pre v ver suf where r: "res = pre @ v @ nv @ suf"
      and c: "leftmost True url pre v ver suf \<or>
          (\<not> (\<exists>p m s. url = p @ m @ s \<and> version3 m \<and> has_ext s) \<and>
           leftmost False url pre v ver suf)"
      by blast
    from c have "derive_url url nv = Inr (pre @ v @ nv @ suf)"
    proof
      assume "leftmost True url pre v ver suf"
      then show ?thesis by (rule derive_url_anchored)
    next
      assume "\<not> (\<exists>p m s. url = p @ m @ s \<and> version3 m \<and> has_ext s) \<and>
           leftmost False url pre v ver suf"
      then show ?thesis using derive_url_fallback by blast
    qed
    with r show ?L1 by simp
  next
    assume l: ?L1
    show ?R1
    proof (cases rule: derive_url_cases [of url])
      case (a p v ver s)
      from a have "derive_url url nv = Inr (p @ v @ nv @ s)" by (rule derive_url_anchored)
      with l have "res = p @ v @ nv @ s" by simp
      with a show ?thesis by blast
    next
      case (f p v ver s)
      from f have "derive_url url nv = Inr (p @ v @ nv @ s)" by (rule derive_url_fallback)
      with l have "res = p @ v @ nv @ s" by simp
      with f show ?thesis by blast
    next
      case n
      then have "derive_url url nv = Inl (UnrecognisablePattern url)" by (rule derive_url_none)
      with l show ?thesis by simp
    qed
  qed
next
  show "?L2 \<longleftrightarrow> ?R2"
  proof (rule iffI)
    assume ?R2
    then show ?L2 using derive_url_none [of url nv] by simp
  next
    assume l: ?L2
    show ?R2
    proof (cases rule: derive_url_cases [of url])
      case (a p v ver s)
      from a have "derive_url url nv = Inr (p @ v @ nv @ s)" by (rule derive_url_anchored)
      with l show ?thesis by simp
    next
      case (f p v ver s)
      from f have "derive_url url nv = Inr (p @ v @ nv @ s)" by (rule derive_url_fallback)
      with l show ?thesis by simp
    next
      case n
      then have "derive_url url nv = Inl (UnrecognisablePattern url)" by (rule derive_url_none)
      with l n show ?thesis by simp
    qed
  qed
qed

text \<open>
  The theorem at two URLs: one with the version \<^verbatim>\<open>1.0.0\<close> before \<^verbatim>\<open>.tar.gz\<close>, and
  one whose only version has two groups.
\<close>

lemma derive_three: 
  "derive_url ''https://x/archive/v1.0.0.tar.gz'' ''1.0.1'' = Inr ''https://x/archive/v1.0.1.tar.gz''"
  by code_simp

lemma derive_two:
  "derive_url ''https://x/archive/v1.0.tar.gz'' ''1.1'' =
     Inl (UnrecognisablePattern ''https://x/archive/v1.0.tar.gz'')"
  by code_simp

theorem derive_url_three_groups_witness:
  "(\<exists>pre v ver suf. ''https://x/archive/v1.0.1.tar.gz'' = pre @ v @ ''1.0.1'' @ suf \<and>
      (leftmost True ''https://x/archive/v1.0.0.tar.gz'' pre v ver suf \<or>
       (\<not> (\<exists>p m s. ''https://x/archive/v1.0.0.tar.gz'' = p @ m @ s \<and> version3 m \<and> has_ext s) \<and>
        leftmost False ''https://x/archive/v1.0.0.tar.gz'' pre v ver suf))) \<and>
   \<not> (\<exists>p m s. ''https://x/archive/v1.0.tar.gz'' = p @ m @ s \<and> version3 m)"
proof (rule conjI)
  show "\<exists>pre v ver suf. ''https://x/archive/v1.0.1.tar.gz'' = pre @ v @ ''1.0.1'' @ suf \<and>
      (leftmost True ''https://x/archive/v1.0.0.tar.gz'' pre v ver suf \<or>
       (\<not> (\<exists>p m s. ''https://x/archive/v1.0.0.tar.gz'' = p @ m @ s \<and> version3 m \<and> has_ext s) \<and>
        leftmost False ''https://x/archive/v1.0.0.tar.gz'' pre v ver suf))"
    by (rule iffD1 [OF conjunct1 [OF derive_url_three_groups] derive_three])
next
  have "UnrecognisablePattern ''https://x/archive/v1.0.tar.gz'' =
          UnrecognisablePattern ''https://x/archive/v1.0.tar.gz'' \<and>
        \<not> (\<exists>p m s. ''https://x/archive/v1.0.tar.gz'' = p @ m @ s \<and> version3 m)"
    by (rule iffD1 [OF conjunct2 [OF derive_url_three_groups] derive_two])
  then show "\<not> (\<exists>p m s. ''https://x/archive/v1.0.tar.gz'' = p @ m @ s \<and> version3 m)" ..
qed

text \<open>
  Against the claim as worded: \<^verbatim>\<open>v1.0\<close> is one or more dot-separated numeric groups
  after a \<open>v\<close>, it stands immediately before \<^verbatim>\<open>.tar.gz\<close>, and the deriver fails.
\<close>

theorem two_group_version_is_not_found:
  "spec_version_shaped ''v1.0'' \<and> has_ext ''.tar.gz'' \<and>
   derive_url (''https://x/archive/'' @ ''v1.0'' @ ''.tar.gz'') ''1.1'' =
     Inl (UnrecognisablePattern ''https://x/archive/v1.0.tar.gz'')"
proof (intro conjI)
  show "spec_version_shaped ''v1.0''"
    unfolding spec_version_shaped_def
    by (intro exI [of _ "''v''"] exI [of _ "[''1'', ''0'']"] exI [of _ "[]"])
       (simp add: digits_def is_digit_def)
  show "has_ext ''.tar.gz''"
    by (simp add: has_ext_def)
  show "derive_url (''https://x/archive/'' @ ''v1.0'' @ ''.tar.gz'') ''1.1'' =
     Inl (UnrecognisablePattern ''https://x/archive/v1.0.tar.gz'')"
    by code_simp
qed

section \<open>The digest pattern, and substitution\<close>

lemma starts_with_iff: "starts_with p s \<longleftrightarrow> (\<exists>r. s = p @ r)"
proof (induction p arbitrary: s)
  case Nil
  then show ?case by simp
next
  case (Cons c p)
  show ?case by (cases s) (auto simp: Cons.IH)
qed

lemma mK_lit: "mK (lit p) s K = (if starts_with p s then K ([], drop (length p) s) else None)"
  by (simp add: mK_def ms_lit split: option.splits)

lemma hex_not_space: "is_hex c \<Longrightarrow> \<not> is_space c"
  by (auto simp: is_hex_def is_space_def)

lemma mK_rep_space: "is_space y \<Longrightarrow> mK (Rep 128 is_hex) (y # ys) K = None"
  by (auto simp: mK_Rep take_Suc_conv_app_nth dest: hex_not_space)

lemma mK_spaces_hex:
  "mK (Seq (Plus is_space) (Rep 128 is_hex)) s K =
     (case s of
        [] \<Rightarrow> None
      | x # xs \<Rightarrow>
          if is_space x then
            (let r = dropWhile is_space xs in
             if 128 \<le> length r \<and> list_all is_hex (take 128 r) then K ([], drop 128 r) else None)
          else None)"
proof -
  let ?K1 = "\<lambda>(g1, s1). mK (Rep 128 is_hex) s1 (\<lambda>(g2, s2). K (g1 @ g2, s2))"
  have 1: "mK (Seq (Plus is_space) (Rep 128 is_hex)) s K = mK (Plus is_space) s ?K1"
    by (rule mK_Seq)
  have 2: "mK (Plus is_space) s ?K1 =
     (case s of [] \<Rightarrow> None | x # xs \<Rightarrow> if is_space x then ?K1 ([], dropWhile is_space xs) else None)"
    by (rule mK_plus_disj) (simp add: mK_rep_space)
  show ?thesis
    unfolding 1 2 by (simp add: mK_Rep Let_def split: list.splits)
qed

lemma mK_grp_lit_seq:
  "mK (Seq (Grp (lit p)) X) s K =
     (if starts_with p s then mK X (drop (length p) s) (\<lambda>(g2, s2). K (p # g2, s2)) else None)"
proof (cases "starts_with p s")
  case False
  have "mK (Seq (Grp (lit p)) X) s K =
      mK (Grp (lit p)) s (\<lambda>(g1, s1). mK X s1 (\<lambda>(g2, s2). K (g1 @ g2, s2)))"
    by (rule mK_Seq)
  with False show ?thesis
    by (simp add: mK_Grp mK_lit)
next
  case True
  then obtain r where s: "s = p @ r"
    unfolding starts_with_iff by blast
  have "mK (Seq (Grp (lit p)) X) s K =
      mK (Grp (lit p)) s (\<lambda>(g1, s1). mK X s1 (\<lambda>(g2, s2). K (g1 @ g2, s2)))"
    by (rule mK_Seq)
  also have "\<dots> = mK X (drop (length p) s) (\<lambda>(g2, s2). K (p # g2, s2))"
    using True s by (simp add: mK_Grp mK_lit)
  finally show ?thesis
    using True by simp
qed

lemma first_match_sha512:
  "first_match sha512_pattern s =
     (case digest_end s of None \<Rightarrow> None | Some rest \<Rightarrow> Some ([''SHA512''], rest))"
proof -
  have l: "length ''SHA512'' = 6"
    by simp
  have "first_match sha512_pattern s =
      (if starts_with ''SHA512'' s
       then mK (Seq (Plus is_space) (Rep 128 is_hex)) (drop 6 s) (\<lambda>(g2, s2). Some (''SHA512'' # g2, s2))
       else None)"
    unfolding first_match_mK sha512_pattern_def mK_grp_lit_seq l by (rule refl)
  then show ?thesis
    unfolding mK_spaces_hex digest_end_def
    by (simp add: Let_def del: starts_with.simps split: list.splits)
qed

lemma digest_end_iff:
  "digest_end s = Some rest \<longleftrightarrow> (\<exists>ws h. digest_at s ws h rest)"
proof
  assume h: "digest_end s = Some rest"
  then have sw: "starts_with ''SHA512'' s"
    by (auto simp: digest_end_def split: if_splits simp del: starts_with.simps)
  then obtain r where s: "s = ''SHA512'' @ r"
    unfolding starts_with_iff by blast
  from h sw s obtain x xs where r: "r = x # xs" and x: "is_space x"
    and l: "128 \<le> length (dropWhile is_space xs)"
    and hx: "list_all is_hex (take 128 (dropWhile is_space xs))"
    and rest: "rest = drop 128 (dropWhile is_space xs)"
    by (auto simp: digest_end_def Let_def split: if_splits list.splits simp del: starts_with.simps)
  let ?ws = "x # takeWhile is_space xs" and ?h = "take 128 (dropWhile is_space xs)"
  have "xs = takeWhile is_space xs @ ?h @ rest"
    using rest by simp
  then have "s = ''SHA512'' @ ?ws @ ?h @ rest"
    using s r by simp
  moreover have "spaces ?ws"
    using x by (simp add: spaces_def list_all_takeWhile)
  moreover have "hex128 ?h"
    using l hx by (simp add: hex128_def)
  ultimately show "\<exists>ws h. digest_at s ws h rest"
    unfolding digest_at_def by blast
next
  assume "\<exists>ws h. digest_at s ws h rest"
  then obtain ws h where s: "s = ''SHA512'' @ ws @ h @ rest" and ws: "spaces ws" and h: "hex128 h"
    unfolding digest_at_def by blast
  from ws obtain x ws' where w: "ws = x # ws'" "is_space x" "list_all is_space ws'"
    by (cases ws) (auto simp: spaces_def)
  from h obtain y h' where hh: "h = y # h'" "is_hex y"
    by (cases h) (auto simp: hex128_def)
  have d: "dropWhile is_space (ws' @ h @ rest) = h @ rest"
    using w(3) hh by (simp add: dropWhile_all hex_not_space)
  have sw: "starts_with ''SHA512'' s"
    unfolding starts_with_iff using s by blast
  have dr: "drop 6 s = x # ws' @ h @ rest"
    using s w(1) by simp
  have "128 \<le> length (h @ rest) \<and> list_all is_hex (take 128 (h @ rest)) \<and> drop 128 (h @ rest) = rest"
    using h by (simp add: hex128_def)
  with sw dr d w(2) show "digest_end s = Some rest"
    by (simp add: digest_end_def Let_def del: starts_with.simps)
qed

lemma first_match_sha512_Some:
  "first_match sha512_pattern s = Some (g, rest) \<longleftrightarrow>
     g = [''SHA512''] \<and> (\<exists>ws h. digest_at s ws h rest)"
  unfolding first_match_sha512 digest_end_iff [symmetric]
  by (auto split: option.splits)

lemma first_match_sha512_None:
  "first_match sha512_pattern s = None \<longleftrightarrow> \<not> (\<exists>ws h rest. digest_at s ws h rest)"
proof (cases "digest_end s")
  case None
  then have "\<And>rest. \<not> (\<exists>ws h. digest_at s ws h rest)"
    using digest_end_iff [of s] by simp
  with None show ?thesis
    by (auto simp: first_match_sha512)
next
  case (Some rest)
  then have "\<exists>ws h. digest_at s ws h rest"
    using digest_end_iff [of s rest] by simp
  with Some show ?thesis
    by (auto simp: first_match_sha512)
qed

lemma digest_at_shorter: "digest_at s ws h rest \<Longrightarrow> length rest < length s"
  by (simp add: digest_at_def)

lemma sub_from_first_match:
  "sub_from r ps (x # xs) =
     (case first_match r (x # xs) of
        None \<Rightarrow> x # sub_from r ps xs
      | Some (g, rest) \<Rightarrow>
          if length rest < length (x # xs) then expand ps g @ sub_from r ps rest
          else x # sub_from r ps xs)"
  by (simp add: first_match_def split: list.splits)

lemma sub_from_none:
  "(\<forall>n < length s. first_match r (drop n s) = None) \<Longrightarrow> sub_from r ps s = s"
proof (induction s)
  case Nil
  then show ?case by simp
next
  case (Cons x xs)
  from Cons.prems have 0: "first_match r (x # xs) = None" by fastforce
  have "\<forall>n < length xs. first_match r (drop n xs) = None"
  proof (intro allI impI)
    fix n assume "n < length xs"
    then have "Suc n < length (x # xs)" by simp
    with Cons.prems have "first_match r (drop (Suc n) (x # xs)) = None" by blast
    then show "first_match r (drop n xs) = None" by simp
  qed
  then have "sub_from r ps xs = xs" by (rule Cons.IH)
  with 0 show ?case
    by (subst sub_from_first_match) simp
qed

lemma sub_from_leftmost:
  assumes "first_match r t = Some (g, rest)" and "length rest < length t"
    and "\<forall>n < length pre. first_match r (drop n (pre @ t)) = None"
  shows "sub_from r ps (pre @ t) = pre @ expand ps g @ sub_from r ps rest"
  using assms(3)
proof (induction pre)
  case Nil
  from assms(2) obtain x xs where t: "t = x # xs" by (cases t) auto
  show ?case
    using assms(1,2) unfolding t by (simp add: sub_from_first_match del: sub_from.simps)
next
  case (Cons y pre)
  from Cons.prems have 0: "first_match r (y # pre @ t) = None" by fastforce
  have "\<forall>n < length pre. first_match r (drop n (pre @ t)) = None"
  proof (intro allI impI)
    fix n assume "n < length pre"
    then have "Suc n < length (y # pre)" by simp
    with Cons.prems have "first_match r (drop (Suc n) ((y # pre) @ t)) = None" by blast
    then show "first_match r (drop n (pre @ t)) = None" by simp
  qed
  then have "sub_from r ps (pre @ t) = pre @ expand ps g @ sub_from r ps rest"
    by (rule Cons.IH)
  with 0 show ?case
    by (simp add: sub_from_first_match del: sub_from.simps)
qed

lemma parse_template_plain:
  "CHR 0x5C \<notin> set cs \<Longrightarrow> parse_template n cs = Inr (map PLit cs)"
  by (induction cs) auto

lemma expand_plain: "expand (map PLit cs) g = cs"
  by (induction cs) auto

lemma groups_of_lit: "groups_of (lit p) = 0"
  by (induction p) auto

lemma digest_template:
  assumes "CHR 0x5C \<notin> set new_sha"
  shows "parse_template (groups_of sha512_pattern) ([CHR 0x5C, CHR ''1'', CHR '' ''] @ new_sha) =
     Inr (PGroup 1 # PLit CHR '' '' # map PLit new_sha)"
proof -
  have g: "groups_of sha512_pattern = 1"
    by (simp add: sha512_pattern_def groups_of_lit del: lit.simps)
  have p: "parse_template 1 (CHR '' '' # new_sha) = Inr (PLit CHR '' '' # map PLit new_sha)"
    using parse_template_plain [of "CHR '' '' # new_sha" 1] assms by simp
  show ?thesis
    unfolding g using p by (simp add: is_digit_def digit_val_def)
qed

lemma new_portfile_sub:
  assumes "CHR 0x5C \<notin> set new_sha"
  shows "new_portfile c new_sha =
     Inr (sub_from sha512_pattern (PGroup 1 # PLit CHR '' '' # map PLit new_sha) c)"
  unfolding new_portfile_def re_sub_def digest_template [OF assms] by simp

lemma expand_digest:
  "expand (PGroup 1 # PLit CHR '' '' # map PLit new_sha) [''SHA512''] = ''SHA512 '' @ new_sha"
  by (simp add: expand_plain)

lemma new_portfile_none:
  assumes "CHR 0x5C \<notin> set new_sha"
    and "\<not> (\<exists>pre ws h rest. c = pre @ ''SHA512'' @ ws @ h @ rest \<and> spaces ws \<and> hex128 h)"
  shows "new_portfile c new_sha = Inr c"
proof -
  have "\<forall>n < length c. first_match sha512_pattern (drop n c) = None"
  proof (intro allI impI)
    fix n assume "n < length c"
    show "first_match sha512_pattern (drop n c) = None"
      unfolding first_match_sha512_None
    proof
      assume "\<exists>ws h rest. digest_at (drop n c) ws h rest"
      then obtain ws h rest where "drop n c = ''SHA512'' @ ws @ h @ rest" "spaces ws" "hex128 h"
        unfolding digest_at_def by blast
      then have "c = take n c @ ''SHA512'' @ ws @ h @ rest \<and> spaces ws \<and> hex128 h"
        by (metis append_take_drop_id)
      with assms(2) show False by blast
    qed
  qed
  then show ?thesis
    unfolding new_portfile_sub [OF assms(1)] by (simp add: sub_from_none)
qed

lemma new_portfile_leftmost:
  assumes "CHR 0x5C \<notin> set new_sha" and "leftmost_digest c pre ws h rest"
  shows "\<exists>out'. new_portfile rest new_sha = Inr out' \<and>
           new_portfile c new_sha = Inr (pre @ ''SHA512 '' @ new_sha @ out')"
proof -
  let ?ps = "PGroup 1 # PLit CHR '' '' # map PLit new_sha"
  let ?t = "''SHA512'' @ ws @ h @ rest"
  from assms(2) have c: "c = pre @ ?t" and d: "digest_at ?t ws h rest"
    and n: "\<forall>n < length pre. \<not> (\<exists>ws' h' rest'. digest_at (drop n c) ws' h' rest')"
    unfolding leftmost_digest_def digest_at_def by blast+
  from d have fm: "first_match sha512_pattern ?t = Some ([''SHA512''], rest)"
    unfolding first_match_sha512_Some by blast
  have l: "length rest < length ?t"
    using d by (rule digest_at_shorter)
  have nn: "\<forall>n < length pre. first_match sha512_pattern (drop n (pre @ ?t)) = None"
    using n unfolding first_match_sha512_None c .
  have "sub_from sha512_pattern ?ps (pre @ ?t) =
      pre @ expand ?ps [''SHA512''] @ sub_from sha512_pattern ?ps rest"
    using fm l nn by (rule sub_from_leftmost)
  then have "sub_from sha512_pattern ?ps c =
      pre @ ''SHA512 '' @ new_sha @ sub_from sha512_pattern ?ps rest"
    unfolding c expand_digest by simp
  then show ?thesis
    unfolding new_portfile_sub [OF assms(1)] by simp
qed

lemma update_portfile_sha512_result:
  assumes "files w path = Some (TextFile c)" and "new_portfile c new_sha = Inr out"
  shows "update_portfile_sha512 path new_sha w =
     (Inr (), \<lparr>files = (files w)(path \<mapsto> TextFile out),
               trace = trace w @ [Write path (TextFile out), Print (MEditSha path)]\<rparr>)"
  using assms
  by (simp add: update_portfile_sha512_def andthen_def read_text_def lift_def seq_def
      write_file_def say_def emit_def)

section \<open>The digest editor of \<^verbatim>\<open>bump-vcpkg.py\<close>\<close>

text \<open>
  Claim C10, as worded: the portfile digest editor replaces every occurrence of
  \<^verbatim>\<open>SHA512\<close> followed by exactly 128 hex characters with the new digest, leaving all
  other file content byte-for-byte unchanged; if the file contains no such occurrence, the
  content is written back unchanged and no error is raised.

  What \<^verbatim>\<open>update_portfile_sha512\<close> does, for a new digest without a backslash (every
  hexadecimal digest is one) and a portfile that is there: it raises no error and writes
  a text \<open>out\<close> back. If the file has no occurrence of the keyword, whitespace and 128
  hexadecimal digits, \<open>out\<close> is the content. If it has, then up to the leftmost occurrence
  \<open>out\<close> is the content, the occurrence is replaced by the keyword, one space and the new
  digest, whatever the whitespace was and whether or not more hexadecimal digits follow
  the first 128, and the rest of \<open>out\<close> is what the editor makes of the content after
  the occurrence.
\<close>

theorem portfile_digest_replacement:
  assumes "CHR 0x5C \<notin> set new_sha" and "files w path = Some (TextFile c)"
  shows "\<exists>out. new_portfile c new_sha = Inr out \<and>
     update_portfile_sha512 path new_sha w =
       (Inr (), \<lparr>files = (files w)(path \<mapsto> TextFile out),
                 trace = trace w @ [Write path (TextFile out), Print (MEditSha path)]\<rparr>) \<and>
     (\<not> (\<exists>pre ws h rest. c = pre @ ''SHA512'' @ ws @ h @ rest \<and> spaces ws \<and> hex128 h) \<longrightarrow>
        out = c) \<and>
     (\<forall>pre ws h rest. leftmost_digest c pre ws h rest \<longrightarrow>
        (\<exists>out'. new_portfile rest new_sha = Inr out' \<and>
                out = pre @ ''SHA512 '' @ new_sha @ out'))"
proof -
  obtain out where out: "new_portfile c new_sha = Inr out"
    using new_portfile_sub [OF assms(1)] by blast
  have 1: "update_portfile_sha512 path new_sha w =
       (Inr (), \<lparr>files = (files w)(path \<mapsto> TextFile out),
                 trace = trace w @ [Write path (TextFile out), Print (MEditSha path)]\<rparr>)"
    using assms(2) out by (rule update_portfile_sha512_result)
  have 2: "\<not> (\<exists>pre ws h rest. c = pre @ ''SHA512'' @ ws @ h @ rest \<and> spaces ws \<and> hex128 h) \<longrightarrow>
        out = c"
    using new_portfile_none [OF assms(1), of c] out by auto
  have 3: "\<forall>pre ws h rest. leftmost_digest c pre ws h rest \<longrightarrow>
        (\<exists>out'. new_portfile rest new_sha = Inr out' \<and>
                out = pre @ ''SHA512 '' @ new_sha @ out')"
  proof (intro allI impI)
    fix pre ws h rest assume "leftmost_digest c pre ws h rest"
    with assms(1) obtain out' where "new_portfile rest new_sha = Inr out'"
      "new_portfile c new_sha = Inr (pre @ ''SHA512 '' @ new_sha @ out')"
      using new_portfile_leftmost by blast
    with out show "\<exists>out'. new_portfile rest new_sha = Inr out' \<and>
                out = pre @ ''SHA512 '' @ new_sha @ out'"
      by simp
  qed
  from out 1 2 3 show ?thesis by blast
qed

text \<open>The theorem at a portfile that is one digest line: the line is rewritten.\<close>

lemma hex128_replicate: "is_hex x \<Longrightarrow> hex128 (replicate 128 x)"
  by (simp add: hex128_def list_all_iff)

lemma new_portfile_nothing: "CHR 0x5C \<notin> set new_sha \<Longrightarrow> new_portfile [] new_sha = Inr []"
  by (simp add: new_portfile_sub)

lemma example_digest_leftmost:
  "leftmost_digest (''SHA512 '' @ replicate 128 CHR ''a'') [] '' '' (replicate 128 CHR ''a'') []"
  unfolding leftmost_digest_def
  by (simp add: spaces_def is_space_def hex128_replicate is_hex_def)

theorem portfile_digest_replacement_witness:
  "fst (update_portfile_sha512 ''ports/p/portfile.cmake'' (replicate 128 CHR ''b'')
          example_digest_world) = Inr () \<and>
   files (snd (update_portfile_sha512 ''ports/p/portfile.cmake'' (replicate 128 CHR ''b'')
          example_digest_world)) ''ports/p/portfile.cmake'' =
     Some (TextFile (''SHA512 '' @ replicate 128 CHR ''b''))"
proof -
  have b: "CHR 0x5C \<notin> set (replicate 128 CHR ''b'')"
    by simp
  have f: "files example_digest_world ''ports/p/portfile.cmake'' =
      Some (TextFile (''SHA512 '' @ replicate 128 CHR ''a''))"
    by (simp add: example_digest_world_def)
  from portfile_digest_replacement [OF b f]
  obtain out where u: "update_portfile_sha512 ''ports/p/portfile.cmake'' (replicate 128 CHR ''b'')
         example_digest_world =
       (Inr (), \<lparr>files = (files example_digest_world)(''ports/p/portfile.cmake'' \<mapsto> TextFile out),
                 trace = trace example_digest_world @
                   [Write ''ports/p/portfile.cmake'' (TextFile out),
                    Print (MEditSha ''ports/p/portfile.cmake'')]\<rparr>)"
    and l: "\<forall>pre ws h rest.
        leftmost_digest (''SHA512 '' @ replicate 128 CHR ''a'') pre ws h rest \<longrightarrow>
        (\<exists>out'. new_portfile rest (replicate 128 CHR ''b'') = Inr out' \<and>
                out = pre @ ''SHA512 '' @ replicate 128 CHR ''b'' @ out')"
    by blast
  from l example_digest_leftmost
  obtain out' where "new_portfile [] (replicate 128 CHR ''b'') = Inr out'"
    and o: "out = [] @ ''SHA512 '' @ replicate 128 CHR ''b'' @ out'"
    by blast
  with new_portfile_nothing [OF b] have "out' = []"
    by simp
  with o have "out = ''SHA512 '' @ replicate 128 CHR ''b''"
    by simp
  with u show ?thesis
    by simp
qed

text \<open>
  Against the claim as worded. A tab between the keyword and the digest is content other
  than the digest, and it is replaced by a space. And where 129 hexadecimal digits follow
  the keyword, which is not an occurrence of exactly 128, the first 128 are replaced.
\<close>

lemma tab_digest_leftmost:
  "leftmost_digest (''SHA512'' @ [CHR 0x09] @ replicate 128 CHR ''a'') [] [CHR 0x09]
     (replicate 128 CHR ''a'') []"
  unfolding leftmost_digest_def
  by (simp add: spaces_def is_space_def hex128_replicate is_hex_def)

lemma long_digest_leftmost:
  "leftmost_digest (''SHA512 '' @ replicate 129 CHR ''a'') [] '' '' (replicate 128 CHR ''a'') ''a''"
proof -
  have "replicate 129 CHR ''a'' = replicate 128 CHR ''a'' @ ''a''"
    using replicate_add [of 128 1 "CHR ''a''"] by simp
  then show ?thesis
    unfolding leftmost_digest_def
    by (simp add: spaces_def is_space_def hex128_replicate is_hex_def)
qed

lemma new_portfile_short: "new_portfile ''a'' (replicate 128 CHR ''b'') = Inr ''a''"
  by (rule new_portfile_none) (auto dest!: arg_cong [where f = length])

theorem digest_separator_is_rewritten:
  "new_portfile (''SHA512'' @ [CHR 0x09] @ replicate 128 CHR ''a'') (replicate 128 CHR ''b'') =
     Inr (''SHA512'' @ '' '' @ replicate 128 CHR ''b'') \<and>
   new_portfile (''SHA512 '' @ replicate 129 CHR ''a'') (replicate 128 CHR ''b'') =
     Inr (''SHA512 '' @ replicate 128 CHR ''b'' @ ''a'')"
proof (rule conjI)
  have b: "CHR 0x5C \<notin> set (replicate 128 CHR ''b'')"
    by simp
  from new_portfile_leftmost [OF b tab_digest_leftmost] new_portfile_nothing [OF b]
  show "new_portfile (''SHA512'' @ [CHR 0x09] @ replicate 128 CHR ''a'') (replicate 128 CHR ''b'') =
     Inr (''SHA512'' @ '' '' @ replicate 128 CHR ''b'')"
    by auto
  from new_portfile_leftmost [OF b long_digest_leftmost] new_portfile_short
  show "new_portfile (''SHA512 '' @ replicate 129 CHR ''a'') (replicate 128 CHR ''b'') =
     Inr (''SHA512 '' @ replicate 128 CHR ''b'' @ ''a'')"
    by auto
qed

section \<open>The anchored pattern, one character at a time\<close>

lemma has_ext_Nil: "\<not> has_ext []"
  by (simp add: has_ext_def)

lemma scan_Group3: "scan Group3 s = has_ext (dropWhile is_suffix_char s)"
  by (induction s) (simp_all add: has_ext_Nil)

lemma scan_Dot2:
  "scan Dot2 s = (case s of [] \<Rightarrow> False | x # xs \<Rightarrow> is_digit x \<and> has_ext (dropWhile is_suffix_char xs))"
  by (cases s) (simp_all add: scan_Group3)

lemma scan_Group2:
  "scan Group2 s =
     (case dropWhile is_digit s of [] \<Rightarrow> False | c # t \<Rightarrow> c = CHR ''.'' \<and> scan Dot2 t)"
  by (induction s) (simp_all del: dropWhile_eq_Nil_conv)

lemma scan_Dot1: "scan Dot1 s = (case digits_dot s of None \<Rightarrow> False | Some t \<Rightarrow> scan Dot2 t)"
  by (cases s) (auto simp: scan_Group2 digits_dot_def split: list.splits simp del: dropWhile_eq_Nil_conv)

lemma scan_Group1:
  "scan Group1 s =
     (case dropWhile is_digit s of [] \<Rightarrow> False | c # t \<Rightarrow> c = CHR ''.'' \<and> scan Dot1 t)"
  by (induction s) (simp_all del: dropWhile_eq_Nil_conv)

lemma scan_AfterV: "scan AfterV s = (case digits_dot s of None \<Rightarrow> False | Some t \<Rightarrow> scan Dot1 t)"
  by (cases s) (auto simp: scan_Group1 digits_dot_def split: list.splits simp del: dropWhile_eq_Nil_conv)

lemma scan_AfterV_core_end:
  "scan AfterV s = (case core_end s of None \<Rightarrow> False | Some r \<Rightarrow> has_ext r)"
  by (auto simp: scan_AfterV scan_Dot1 scan_Dot2 core_end_def split: option.splits list.splits)

lemma scan_Start: "scan Start s = (case strip_v s of (v, s0) \<Rightarrow> scan AfterV s0)"
  by (cases s) (simp_all add: strip_v_def)

lemma scan_Start_first_match: "scan Start s \<longleftrightarrow> first_match anchored_pattern s \<noteq> None"
  by (auto simp: scan_Start scan_AfterV_core_end first_match_anchored split: prod.splits option.splits)

lemma starts_with_past:
  "z \<notin> set e \<Longrightarrow> starts_with e (q @ z # R) = starts_with e q"
proof (induction e arbitrary: q)
  case Nil
  then show ?case by simp
next
  case (Cons c e)
  then show ?case by (cases q) auto
qed

lemma has_ext_past:
  assumes "z = CHR ''v'' \<or> is_digit z"
  shows "has_ext (q @ z # R) = has_ext q"
proof -
  have 1: "starts_with ''.tar.gz'' (q @ z # R) = starts_with ''.tar.gz'' q"
    by (rule starts_with_past) (use assms in \<open>auto simp: is_digit_def\<close>)
  have 2: "starts_with ''.zip'' (q @ z # R) = starts_with ''.zip'' q"
    by (rule starts_with_past) (use assms in \<open>auto simp: is_digit_def\<close>)
  show ?thesis
    unfolding has_ext_def 1 2 ..
qed

lemma not_digit_dot: "\<not> is_digit CHR ''.''"
  by (simp add: is_digit_def)

lemma scan_Group1_digits: "list_all is_digit a \<Longrightarrow> scan Group1 (a @ r) = scan Group1 r"
  by (induction a) auto

lemma scan_Group2_digits: "list_all is_digit a \<Longrightarrow> scan Group2 (a @ r) = scan Group2 r"
  by (induction a) auto

lemma scan_Group3_suffix: "list_all is_suffix_char a \<Longrightarrow> scan Group3 (a @ r) = scan Group3 r"
  by (induction a) auto

lemma has_ext_dot_digit: "is_digit z \<Longrightarrow> \<not> has_ext (CHR ''.'' # z # R)"
  by (auto simp: has_ext_def is_digit_def)

lemma scan_Group3_dot_digit:
  "list_all is_suffix_char u \<Longrightarrow> is_digit z \<Longrightarrow> \<not> scan Group3 (u @ CHR ''.'' # z # R)"
  by (simp add: scan_Group3_suffix is_suffix_char_def has_ext_dot_digit)

lemma digits_suffix: "list_all is_digit a \<Longrightarrow> list_all is_suffix_char a"
  by (induction a) (auto simp: digit_is_suffix_char)

text \<open>What each place makes of a version followed by an archive extension.\<close>

lemma scan_at_version:
  assumes ver: "version3 ver" and ext: "has_ext suf"
  shows "scan st (ver @ suf) \<longleftrightarrow> st = Start \<or> st = AfterV \<or> st = Group1"
proof -
  from ver obtain a b c t where v: "ver = a @ ''.'' @ b @ ''.'' @ c @ t"
    and a: "digits a" and b: "digits b" and c: "digits c" and t: "list_all is_suffix_char t"
    unfolding version3_def by blast
  from digits_Cons [OF a] obtain x a' where a': "a = x # a'" "is_digit x" "list_all is_digit a'"
    by blast
  from digits_Cons [OF b] obtain y b' where b': "b = y # b'" "is_digit y" "list_all is_digit b'"
    by blast
  from digits_Cons [OF c] obtain z c' where c': "c = z # c'" "is_digit z" "list_all is_digit c'"
    by blast
  let ?rc = "c' @ t @ suf"
  let ?rb = "b' @ CHR ''.'' # z # ?rc"
  let ?ra = "a' @ CHR ''.'' # y # ?rb"
  have e: "ver @ suf = x # ?ra"
    using v a' b' c' by simp
  have s: "stops suf"
    using ext by (rule has_ext_stops)
  have g3c: "scan Group3 ?rc"
    using c'(3) t ext s
    by (simp add: scan_Group3 dropWhile_all digits_suffix dropWhile_stops)
  have g3b: "\<not> scan Group3 ?rb"
    using b'(3) c'(2) by (intro scan_Group3_dot_digit digits_suffix)
  have g3a: "\<not> scan Group3 ?ra"
    using a'(3) b'(2) by (intro scan_Group3_dot_digit digits_suffix)
  have g2b: "scan Group2 ?rb"
    using b'(3) c'(2) g3c by (simp add: scan_Group2_digits not_digit_dot)
  have g2a: "\<not> scan Group2 ?ra"
    using a'(3) b'(2) g3b by (simp add: scan_Group2_digits not_digit_dot)
  have g1a: "scan Group1 ?ra"
    using a'(3) b'(2) g2b by (simp add: scan_Group1_digits not_digit_dot)
  show ?thesis
    unfolding e using a'(2) g3a g2a g1a
    by (cases st) (simp_all add: digit_not_v digit_is_suffix_char)
qed

lemma scan_at_v_version:
  assumes ver: "version3 ver" and ext: "has_ext suf"
  shows "scan st (''v'' @ ver @ suf) \<longleftrightarrow> st = Start"
proof -
  have v: "\<not> is_digit CHR ''v''" "is_suffix_char CHR ''v''"
    by (simp_all add: is_digit_def is_suffix_char_def)
  from scan_at_version [OF ver ext]
  have "scan AfterV (ver @ suf)" "\<not> scan Group3 (ver @ suf)"
    by simp_all
  with v show ?thesis
    by (cases st) simp_all
qed

lemma scan_at_match:
  assumes "version3 ver" and "version3 v2" and "has_ext suf" and "v = [] \<or> v = ''v''"
  shows "scan st (v @ ver @ suf) = scan st (v @ v2 @ suf)"
  using assms(4)
proof
  assume v: "v = []"
  have "scan st (ver @ suf) = scan st (v2 @ suf)"
    by (simp only: scan_at_version [OF assms(1,3)] scan_at_version [OF assms(2,3)])
  then show ?thesis
    unfolding v by simp
next
  assume v: "v = ''v''"
  show ?thesis
    unfolding v
    by (simp only: scan_at_v_version [OF assms(1,3)] scan_at_v_version [OF assms(2,3)])
qed

lemma match_head:
  assumes "version3 ver" and "v = [] \<or> v = ''v''"
  shows "\<exists>z R. v @ ver @ suf = z # R \<and> (z = CHR ''v'' \<or> is_digit z)"
  using assms(2) version3_starts_with_digit [OF assms(1)] by auto

lemma scan_transfer:
  assumes "version3 ver" and "version3 v2" and "has_ext suf" and "v = [] \<or> v = ''v''"
  shows "scan st (q @ v @ ver @ suf) = scan st (q @ v @ v2 @ suf)"
proof (induction q arbitrary: st)
  case Nil
  show ?case
    using scan_at_match [OF assms] by simp
next
  case (Cons x q)
  from match_head [OF assms(1,4)] obtain z R where
    1: "v @ ver @ suf = z # R" "z = CHR ''v'' \<or> is_digit z" by blast
  from match_head [OF assms(2,4)] obtain z' R' where
    2: "v @ v2 @ suf = z' # R'" "z' = CHR ''v'' \<or> is_digit z'" by blast
  have "has_ext ((x # q) @ z # R) = has_ext (x # q)"
    using 1(2) by (rule has_ext_past)
  moreover have "has_ext ((x # q) @ z' # R') = has_ext (x # q)"
    using 2(2) by (rule has_ext_past)
  ultimately have h: "has_ext (x # q @ v @ ver @ suf) = has_ext (x # q @ v @ v2 @ suf)"
    using 1(1) 2(1) by simp
  show ?case
    by (cases st) (simp_all add: Cons.IH h)
qed

lemma first_match_transfer:
  assumes "version3 ver" and "version3 v2" and "has_ext suf" and "v = [] \<or> v = ''v''"
  shows "first_match anchored_pattern (q @ v @ ver @ suf) = None \<longleftrightarrow>
         first_match anchored_pattern (q @ v @ v2 @ suf) = None"
proof -
  have "scan Start (q @ v @ ver @ suf) = scan Start (q @ v @ v2 @ suf)"
    by (rule scan_transfer [OF assms])
  then have "(first_match anchored_pattern (q @ v @ ver @ suf) \<noteq> None) =
      (first_match anchored_pattern (q @ v @ v2 @ suf) \<noteq> None)"
    by (simp only: scan_Start_first_match)
  then show ?thesis by blast
qed

lemma leftmost_transfer:
  assumes l: "leftmost True url pre v ver suf" and v2: "version3 v2"
  shows "leftmost True (pre @ v @ v2 @ suf) pre v v2 suf"
proof -
  from l have u: "url = pre @ v @ ver @ suf" and vv: "v = [] \<or> v = ''v''" and ver: "version3 ver"
    and ext: "has_ext suf"
    and n: "\<forall>n < length pre. \<not> (\<exists>v' ver' suf'. shaped_at True (drop n url) v' ver' suf')"
    unfolding leftmost_def shaped_at_def by simp_all
  have "\<forall>n < length pre. \<not> (\<exists>v' ver' suf'. shaped_at True (drop n (pre @ v @ v2 @ suf)) v' ver' suf')"
  proof (intro allI impI)
    fix n assume k: "n < length pre"
    with n have "first_match anchored_pattern (drop n url) = None"
      unfolding first_match_anchored_none by blast
    with k u have "first_match anchored_pattern (drop n pre @ v @ ver @ suf) = None"
      by simp
    then have "first_match anchored_pattern (drop n pre @ v @ v2 @ suf) = None"
      using first_match_transfer [OF ver v2 ext vv] by blast
    with k show "\<not> (\<exists>v' ver' suf'. shaped_at True (drop n (pre @ v @ v2 @ suf)) v' ver' suf')"
      unfolding first_match_anchored_none by simp
  qed
  with vv v2 ext show ?thesis
    unfolding leftmost_def shaped_at_def by simp
qed

section \<open>The URL deriver: substitution only, and the way back\<close>

text \<open>
  Claim C6, as worded: for every URL containing a version-shaped substring followed by a
  known archive extension, the derived URL differs from the URL only in that substring,
  and deriving again from the result with the original version gives the original URL
  back.

  What holds of \<^verbatim>\<open>derive_tarball_url\<close>: a URL in which a three-group version stands
  immediately before \<^verbatim>\<open>.tar.gz\<close> or \<^verbatim>\<open>.zip\<close> is \<open>pre @ v @ ver @ suf\<close>, with \<open>v\<close> empty
  or the letter \<open>v\<close>, \<open>ver\<close> a three-group version and \<open>suf\<close> starting with the
  extension, such that for every new version \<open>v2\<close> the derived URL is
  \<open>pre @ v @ v2 @ suf\<close>; and if \<open>v2\<close> is a three-group version itself, deriving from that
  URL with \<open>ver\<close> gives the original URL back.
\<close>

theorem derive_url_round_trip:
  assumes "url = p @ m @ s" and "version3 m" and "has_ext s"
  shows "\<exists>pre v ver suf.
           url = pre @ v @ ver @ suf \<and> (v = [] \<or> v = ''v'') \<and> version3 ver \<and> has_ext suf \<and>
           (\<forall>v2. derive_url url v2 = Inr (pre @ v @ v2 @ suf) \<and>
                 (version3 v2 \<longrightarrow> derive_url (pre @ v @ v2 @ suf) ver = Inr url))"
proof -
  from assms have ex: "\<exists>p m s. url = p @ m @ s \<and> version3 m \<and> has_ext s"
    by blast
  then have "re_search anchored_pattern url \<noteq> None"
    unfolding anchored_search_none by simp
  then obtain pre g suf where "re_search anchored_pattern url = Some (pre, g, suf)"
    by auto
  then obtain v ver where l: "leftmost True url pre v ver suf"
    unfolding anchored_search by blast
  then have u: "url = pre @ v @ ver @ suf" and vv: "v = [] \<or> v = ''v''" and ver: "version3 ver"
    and ext: "has_ext suf"
    unfolding leftmost_def shaped_at_def by simp_all
  have "\<forall>v2. derive_url url v2 = Inr (pre @ v @ v2 @ suf) \<and>
             (version3 v2 \<longrightarrow> derive_url (pre @ v @ v2 @ suf) ver = Inr url)"
  proof (intro allI conjI impI)
    fix v2
    show "derive_url url v2 = Inr (pre @ v @ v2 @ suf)"
      using l by (rule derive_url_anchored)
  next
    fix v2 assume "version3 v2"
    with l have "leftmost True (pre @ v @ v2 @ suf) pre v v2 suf"
      by (rule leftmost_transfer)
    then have "derive_url (pre @ v @ v2 @ suf) ver = Inr (pre @ v @ ver @ suf)"
      by (rule derive_url_anchored)
    then show "derive_url (pre @ v @ v2 @ suf) ver = Inr url"
      unfolding u .
  qed
  with u vv ver ext show ?thesis
    by blast
qed

text \<open>The theorem at a URL with the version \<^verbatim>\<open>1.0.0\<close> before \<^verbatim>\<open>.tar.gz\<close>.\<close>

lemma version3_example: "version3 ''1.0.0''"
  unfolding version3_def
  by (intro exI [of _ "''1''"] exI [of _ "''0''"] exI [of _ "[]"]) (simp add: digits_def is_digit_def)

theorem derive_url_round_trip_witness:
  "\<exists>pre v ver suf.
     ''https://x/archive/v1.0.0.tar.gz'' = pre @ v @ ver @ suf \<and> (v = [] \<or> v = ''v'') \<and>
     version3 ver \<and> has_ext suf \<and>
     (\<forall>v2. derive_url ''https://x/archive/v1.0.0.tar.gz'' v2 = Inr (pre @ v @ v2 @ suf) \<and>
           (version3 v2 \<longrightarrow>
              derive_url (pre @ v @ v2 @ suf) ver = Inr ''https://x/archive/v1.0.0.tar.gz''))"
proof (rule derive_url_round_trip)
  show "''https://x/archive/v1.0.0.tar.gz'' = ''https://x/archive/v'' @ ''1.0.0'' @ ''.tar.gz''"
    by simp
  show "version3 ''1.0.0''"
    by (rule version3_example)
  show "has_ext ''.tar.gz''"
    by (simp add: has_ext_def)
qed

text \<open>
  Against the claim as worded, which takes any new version. \<^verbatim>\<open>2.0\<close> is dot-separated
  numeric groups, the URL derived for it is not one the deriver can read, and the way
  back fails. A new version with a \<open>v\<close> of its own leaves a second \<open>v\<close> in the URL, which
  the way back keeps.
\<close>

theorem round_trip_fails_for_other_versions:
  "spec_version_shaped ''2.0'' \<and>
   derive_url ''https://x/archive/v1.0.0.tar.gz'' ''2.0'' = Inr ''https://x/archive/v2.0.tar.gz'' \<and>
   derive_url ''https://x/archive/v2.0.tar.gz'' ''1.0.0'' =
     Inl (UnrecognisablePattern ''https://x/archive/v2.0.tar.gz'') \<and>
   derive_url ''https://x/archive/v1.0.0.tar.gz'' ''v2.0.0'' =
     Inr ''https://x/archive/vv2.0.0.tar.gz'' \<and>
   derive_url ''https://x/archive/vv2.0.0.tar.gz'' ''1.0.0'' =
     Inr ''https://x/archive/vv1.0.0.tar.gz''"
proof (intro conjI)
  show "spec_version_shaped ''2.0''"
    unfolding spec_version_shaped_def
    by (intro exI [of _ "[]"] exI [of _ "[''2'', ''0'']"]) (simp add: digits_def is_digit_def)
  show "derive_url ''https://x/archive/v1.0.0.tar.gz'' ''2.0'' = Inr ''https://x/archive/v2.0.tar.gz''"
    by code_simp
  show "derive_url ''https://x/archive/v2.0.tar.gz'' ''1.0.0'' =
     Inl (UnrecognisablePattern ''https://x/archive/v2.0.tar.gz'')"
    by code_simp
  show "derive_url ''https://x/archive/v1.0.0.tar.gz'' ''v2.0.0'' =
     Inr ''https://x/archive/vv2.0.0.tar.gz''"
    by code_simp
  show "derive_url ''https://x/archive/vv2.0.0.tar.gz'' ''1.0.0'' =
     Inr ''https://x/archive/vv1.0.0.tar.gz''"
    by code_simp
qed

end
